theory Spec2Isabelle
  imports Main "HOL-Library.Sublist"
begin

section \<open>String primitives of the JavaScript runtime\<close>

text \<open>
  The engine rewrites paths with \<^verbatim>\<open>includes\<close>, \<^verbatim>\<open>split\<close>, \<^verbatim>\<open>replace\<close>,
  \<^verbatim>\<open>replaceAll\<close>, \<^verbatim>\<open>lastIndexOf\<close> and \<^verbatim>\<open>slice\<close>. All of them are written over one
  search function: \<open>breakOn pat s\<close> finds the first (leftmost) occurrence of \<open>pat\<close> in
  \<open>s\<close> and returns the text before it and the text after it.

  In the replacement text of \<^verbatim>\<open>replace\<close> and \<^verbatim>\<open>replaceAll\<close> a dollar sign followed
  by a dollar sign, an ampersand, a backquote or a quote is a pattern that the runtime
  expands (\<open>expandReplacement\<close>); the engine passes path text as the replacement.
\<close>

fun breakOn :: "string \<Rightarrow> string \<Rightarrow> (string \<times> string) option" where
  "breakOn pat [] = (if pat = [] then Some ([], []) else None)"
| "breakOn pat (c # s) =
     (if prefix pat (c # s) then Some ([], drop (length pat) (c # s))
      else (case breakOn pat s of None \<Rightarrow> None | Some (b, a) \<Rightarrow> Some (c # b, a)))"

text \<open>\<^verbatim>\<open>s.includes(pat)\<close>\<close>

definition includes_str :: "string \<Rightarrow> string \<Rightarrow> bool" where
  "includes_str s pat = (breakOn pat s \<noteq> None)"

text \<open>\<^verbatim>\<open>s.split(pat)[0]\<close>, for a separator that is not empty.\<close>

definition split0 :: "string \<Rightarrow> string \<Rightarrow> string" where
  "split0 s pat = (case breakOn pat s of None \<Rightarrow> s | Some (b, a) \<Rightarrow> b)"

text \<open>
  The replacement text as the runtime inserts it for one match (\<^verbatim>\<open>GetSubstitution\<close> for
  a string pattern, which has no capture groups): \<^verbatim>\<open>$$\<close> stands for a dollar sign,
  \<^verbatim>\<open>$&\<close> for the matched text, a dollar sign and a backquote for the text before the
  match, a dollar sign and a quote for the text after it; every other character, also a
  dollar sign followed by anything else, stands for itself.
\<close>

fun expandReplacement :: "string \<Rightarrow> string \<Rightarrow> string \<Rightarrow> string \<Rightarrow> string" where
  "expandReplacement matched preceding following [] = []"
| "expandReplacement matched preceding following [c] = [c]"
| "expandReplacement matched preceding following (c # c' # rep) =
     (if c = CHR ''$'' \<and> c' = CHR ''$''
      then CHR ''$'' # expandReplacement matched preceding following rep
      else if c = CHR ''$'' \<and> c' = CHR ''&''
      then matched @ expandReplacement matched preceding following rep
      else if c = CHR ''$'' \<and> c' = CHR 0x60
      then preceding @ expandReplacement matched preceding following rep
      else if c = CHR ''$'' \<and> c' = CHR 0x27
      then following @ expandReplacement matched preceding following rep
      else c # expandReplacement matched preceding following (c' # rep))"

text \<open>\<^verbatim>\<open>s.replace(pat, rep)\<close> with a string pattern: the first occurrence only.\<close>

definition replace :: "string \<Rightarrow> string \<Rightarrow> string \<Rightarrow> string" where
  "replace s pat rep =
     (case breakOn pat s of
        None \<Rightarrow> s
      | Some (b, a) \<Rightarrow> b @ expandReplacement pat b a rep @ a)"

text \<open>
  \<^verbatim>\<open>s.replaceAll(pat, rep)\<close>: every occurrence, scanning left to right without overlap.
  \<open>replaceAllFrom scanned s\<close> works on the rest \<open>s\<close> of a text whose part \<open>scanned\<close> is
  already scanned; the text before a match is counted from the start of the whole text.
\<close>

fun replaceAllFrom :: "string \<Rightarrow> string \<Rightarrow> string \<Rightarrow> string \<Rightarrow> string" where
  "replaceAllFrom scanned [] pat rep = (if pat = [] then expandReplacement pat scanned [] rep else [])"
| "replaceAllFrom scanned (c # s) pat rep =
     (if pat = []
      then expandReplacement pat scanned (c # s) rep @ c # replaceAllFrom (scanned @ [c]) s pat rep
      else if prefix pat (c # s)
      then expandReplacement pat scanned (drop (length pat) (c # s)) rep
           @ replaceAllFrom (scanned @ pat) (drop (length pat - 1) s) pat rep
      else c # replaceAllFrom (scanned @ [c]) s pat rep)"

definition replaceAll :: "string \<Rightarrow> string \<Rightarrow> string \<Rightarrow> string" where
  "replaceAll s pat rep = replaceAllFrom [] s pat rep"

text \<open>\<^verbatim>\<open>s.lastIndexOf(ch)\<close>: the index of the last occurrence, or -1.\<close>

definition lastIndexOf :: "string \<Rightarrow> char \<Rightarrow> int" where
  "lastIndexOf s ch =
     (case filter (\<lambda>i. s ! i = ch) (rev [0..<length s]) of [] \<Rightarrow> - 1 | i # _ \<Rightarrow> int i)"

text \<open>\<^verbatim>\<open>s.slice(k)\<close> for an index that is not negative.\<close>

definition slice :: "string \<Rightarrow> int \<Rightarrow> string" where
  "slice s k = drop (nat k) s"

text \<open>The decimal text of a number, as a template literal prints an index.\<close>

fun string_of_nat :: "nat \<Rightarrow> string" where
  "string_of_nat n =
     (if n < 10 then [''0123456789'' ! n]
      else string_of_nat (n div 10) @ [''0123456789'' ! (n mod 10)])"

declare string_of_nat.simps [simp del]

definition string_of_int :: "int \<Rightarrow> string" where
  "string_of_int k = (if k < 0 then CHR ''-'' # string_of_nat (nat (- k)) else string_of_nat (nat k))"

text \<open>A template literal prints a missing value as the word undefined.\<close>

definition template :: "string option \<Rightarrow> string" where
  "template v = (case v of None \<Rightarrow> ''undefined'' | Some s \<Rightarrow> s)"

subsection \<open>Facts about the search\<close>

lemma breakOn_SomeD: "breakOn pat s = Some (b, a) \<Longrightarrow> s = b @ pat @ a"
proof (induction s arbitrary: b)
  case Nil
  then show ?case by (simp split: if_splits)
next
  case (Cons c s)
  show ?case
  proof (cases "prefix pat (c # s)")
    case True
    with Cons.prems have "b = []" "a = drop (length pat) (c # s)" by simp_all
    moreover from True have "c # s = pat @ drop (length pat) (c # s)"
      by (metis append_eq_conv_conj prefixE)
    ultimately show ?thesis by simp
  next
    case False
    with Cons.prems obtain b' where b': "breakOn pat s = Some (b', a)" "b = c # b'"
      by (auto split: option.splits)
    from Cons.IH [OF b'(1)] b'(2) show ?thesis by simp
  qed
qed

lemma breakOn_first:
  "breakOn pat s = Some (b, a) \<Longrightarrow> s = b' @ pat @ a' \<Longrightarrow> length b \<le> length b'"
proof (induction s arbitrary: b b')
  case Nil
  then show ?case by (simp split: if_splits)
next
  case (Cons c s)
  show ?case
  proof (cases "prefix pat (c # s)")
    case True
    with Cons.prems(1) have "b = []" by simp
    then show ?thesis by simp
  next
    case False
    with Cons.prems(1) obtain b0 where b0: "breakOn pat s = Some (b0, a)" "b = c # b0"
      by (auto split: option.splits)
    from False Cons.prems(2) have "b' \<noteq> []" by (auto simp: prefix_def)
    then obtain b1 where b1: "b' = c # b1" using Cons.prems(2) by (cases b') auto
    with Cons.prems(2) have "s = b1 @ pat @ a'" by simp
    from Cons.IH [OF b0(1) this] b0(2) b1 show ?thesis by simp
  qed
qed

lemma breakOn_None_iff: "breakOn pat s = None \<longleftrightarrow> (\<forall>b a. s \<noteq> b @ pat @ a)"
proof (induction s)
  case Nil
  then show ?case by auto
next
  case (Cons c s)
  show ?case
  proof (cases "prefix pat (c # s)")
    case True
    then obtain r where "c # s = pat @ r" by (auto simp: prefix_def)
    then have "c # s = [] @ pat @ r" by simp
    with True show ?thesis by (metis breakOn.simps(2) option.distinct(1))
  next
    case False
    have "(\<forall>b a. c # s \<noteq> b @ pat @ a) \<longleftrightarrow> (\<forall>b a. s \<noteq> b @ pat @ a)"
    proof
      assume h: "\<forall>b a. c # s \<noteq> b @ pat @ a"
      show "\<forall>b a. s \<noteq> b @ pat @ a"
      proof (intro allI notI)
        fix b a assume "s = b @ pat @ a"
        then have "c # s = (c # b) @ pat @ a" by simp
        with h show False by blast
      qed
    next
      assume h: "\<forall>b a. s \<noteq> b @ pat @ a"
      show "\<forall>b a. c # s \<noteq> b @ pat @ a"
      proof (intro allI notI)
        fix b a assume e: "c # s = b @ pat @ a"
        with False have "b \<noteq> []" by (auto simp: prefix_def)
        then obtain b1 where "b = c # b1" using e by (cases b) auto
        with e have "s = b1 @ pat @ a" by simp
        with h show False by blast
      qed
    qed
    with False Cons.IH show ?thesis by (auto split: option.splits)
  qed
qed

lemma breakOn_intro:
  assumes "s = b @ pat @ a" and "\<And>b' a'. s = b' @ pat @ a' \<Longrightarrow> length b \<le> length b'"
  shows "breakOn pat s = Some (b, a)"
proof -
  from assms(1) have "breakOn pat s \<noteq> None" by (auto simp: breakOn_None_iff)
  then obtain b0 a0 where r: "breakOn pat s = Some (b0, a0)" by auto
  from breakOn_SomeD [OF r] have e: "s = b0 @ pat @ a0" .
  from breakOn_first [OF r assms(1)] assms(2) [OF e] have "length b0 = length b" by simp
  with e assms(1) have "b0 = b" "a0 = a" by auto
  with r show ?thesis by simp
qed

lemma string_of_nat_digits: "set (string_of_nat n) \<subseteq> set ''0123456789''"
proof (induction n rule: string_of_nat.induct)
  case (1 n)
  have d: "''0123456789'' ! k \<in> set ''0123456789''" if "k < 10" for k
    using that by (intro nth_mem) simp
  show ?case
  proof (cases "n < 10")
    case True
    with d [of n] show ?thesis by (subst string_of_nat.simps) simp
  next
    case False
    have "n mod 10 < 10" by simp
    from d [OF this] 1 [OF False] False show ?thesis
      by (subst string_of_nat.simps) simp
  qed
qed

lemma string_of_nat_no_bracket: "CHR ''['' \<notin> set (string_of_nat n)"
  using string_of_nat_digits [of n] by auto

lemma breakOn_marker_append:
  assumes "breakOn ''[]'' x = None"
    and "\<not> (x \<noteq> [] \<and> last x = CHR ''['' \<and> y \<noteq> [] \<and> hd y = CHR '']'')"
  shows "breakOn ''[]'' (x @ y) =
           (case breakOn ''[]'' y of None \<Rightarrow> None | Some (b, a) \<Rightarrow> Some (x @ b, a))"
  using assms
proof (induction x)
  case Nil
  then show ?case by (simp split: option.splits)
next
  case (Cons c x)
  from Cons.prems(1) have np: "\<not> prefix ''[]'' (c # x)" and nx: "breakOn ''[]'' x = None"
    by (auto split: if_splits option.splits)
  have np': "\<not> prefix ''[]'' (c # x @ y)"
  proof (cases x)
    case Nil
    with Cons.prems(2) show ?thesis by (cases y) auto
  next
    case (Cons d x')
    with np show ?thesis by auto
  qed
  have "\<not> (x \<noteq> [] \<and> last x = CHR ''['' \<and> y \<noteq> [] \<and> hd y = CHR '']'')"
    using Cons.prems(2) by auto
  from Cons.IH [OF nx this] np' show ?case by (simp split: option.splits)
qed

lemma breakOn_no_open: "CHR ''['' \<notin> set k \<Longrightarrow> breakOn ''[]'' (k @ '']'') = None"
  by (induction k) auto

lemma breakOn_placeholder:
  assumes "CHR ''['' \<notin> set k"
  shows "breakOn ''[]'' (''[@'' @ k @ '']'') = None"
  using breakOn_no_open [OF assms] by simp

lemma expandReplacement_literal:
  "CHR ''$'' \<notin> set rep \<Longrightarrow> expandReplacement matched preceding following rep = rep"
  by (induction matched preceding following rep rule: expandReplacement.induct) auto

lemma replace_literal:
  "CHR ''$'' \<notin> set rep \<Longrightarrow>
     replace s pat rep = (case breakOn pat s of None \<Rightarrow> s | Some (b, a) \<Rightarrow> b @ rep @ a)"
  by (simp add: replace_def expandReplacement_literal split: option.splits)

lemma replace_marker:
  assumes r: "breakOn ''[]'' rv = Some (P, a)" and s: "suffix N P"
    and d: "CHR ''$'' \<notin> set rep"
  shows "replace rv (N @ ''[]'') rep = take (length P - length N) P @ rep @ a"
proof -
  from s obtain P0 where P: "P = P0 @ N" by (auto simp: suffix_def)
  from breakOn_SomeD [OF r] P have e: "rv = P0 @ (N @ ''[]'') @ a" by simp
  have "breakOn (N @ ''[]'') rv = Some (P0, a)"
  proof (rule breakOn_intro [OF e])
    fix b' a' assume "rv = b' @ (N @ ''[]'') @ a'"
    then have "rv = (b' @ N) @ ''[]'' @ a'" by simp
    from breakOn_first [OF r this] P show "length P0 \<le> length b'" by simp
  qed
  with P d show ?thesis by (simp add: replace_literal)
qed

lemma string_of_nat_no_dollar: "CHR ''$'' \<notin> set (string_of_nat n)"
  using string_of_nat_digits [of n] by auto

lemma marker_step:
  assumes r: "breakOn ''[]'' rv = Some (P, a)" and s: "suffix N P" and k: "CHR ''['' \<notin> set k"
    and d: "CHR ''$'' \<notin> set N" "CHR ''$'' \<notin> set k"
  shows "breakOn ''[]'' (replace rv (N @ ''[]'') (N @ ''[@'' @ k @ '']'')) =
           (case breakOn ''[]'' a of None \<Rightarrow> None
            | Some (b', a') \<Rightarrow> Some (P @ ''[@'' @ k @ '']'' @ b', a'))"
proof -
  from s obtain P0 where P: "P = P0 @ N" by (auto simp: suffix_def)
  have nP: "breakOn ''[]'' P = None"
  proof (rule ccontr)
    assume "breakOn ''[]'' P \<noteq> None"
    then obtain b0 a0 where "P = b0 @ ''[]'' @ a0"
      by (auto simp: breakOn_None_iff)
    with breakOn_SomeD [OF r] have "rv = b0 @ ''[]'' @ (a0 @ ''[]'' @ a)" by simp
    from breakOn_first [OF r this] \<open>P = b0 @ ''[]'' @ a0\<close> show False by simp
  qed
  have 1: "breakOn ''[]'' (P @ ''[@'' @ k @ '']'') = None"
    using breakOn_marker_append [OF nP, of "''[@'' @ k @ '']''"] breakOn_placeholder [OF k]
    by simp
  have 2: "breakOn ''[]'' ((P @ ''[@'' @ k @ '']'') @ a) =
             (case breakOn ''[]'' a of None \<Rightarrow> None
              | Some (b', a') \<Rightarrow> Some ((P @ ''[@'' @ k @ '']'') @ b', a'))"
    by (rule breakOn_marker_append [OF 1]) simp
  have "CHR ''$'' \<notin> set (N @ ''[@'' @ k @ '']'')" using d by simp
  from replace_marker [OF r s this] P
  have "replace rv (N @ ''[]'') (N @ ''[@'' @ k @ '']'') = (P @ ''[@'' @ k @ '']'') @ a"
    by simp
  with 2 show ?thesis by (simp split: option.splits)
qed

lemma breakOn_after_shorter: "breakOn pat s = Some (b, a) \<Longrightarrow> pat \<noteq> [] \<Longrightarrow> length a < length s"
  by (drule breakOn_SomeD) (cases pat, auto)

section \<open>Data model\<close>

text \<open>
  A JavaScript value of the document, of the side context or of a comparison is of an
  arbitrary type \<open>'v\<close>; \<open>'v option\<close> adds \<^verbatim>\<open>undefined\<close> as \<open>None\<close>. What the
  engine asks of the JavaScript runtime and of the library \<^verbatim>\<open>object-path\<close> about such
  values is a parameter of the model, the record \<open>runtime\<close>:
  \<^item> \<open>objectPath_get obj path\<close> is \<^verbatim>\<open>objectPath.get(obj, path)\<close>;
  \<^item> \<open>loopItemsLength x\<close> is the number of rounds of
    \<^verbatim>\<open>for (let i = 0; i < (x ?? []).length; i++)\<close>;
  \<^item> \<open>isTruthy\<close> is the truth value of a value in a condition;
  \<^item> \<open>localeCompare a b\<close> is \<^verbatim>\<open>a.localeCompare(b)\<close>;
  \<^item> \<open>jsonClone v\<close> is \<^verbatim>\<open>JSON.parse(JSON.stringify(v))\<close> for a property value
    (\<open>None\<close> when the property is dropped);
  \<^item> \<open>lengthIsZero v\<close>, \<open>lengthIsPositive v\<close> are \<^verbatim>\<open>v.length === 0\<close> and
    \<^verbatim>\<open>v.length > 0\<close> (\<open>None\<close> when reading the property throws);
  \<^item> \<open>lowerIfString v\<close> is \<^verbatim>\<open>v.toLowerCase()\<close> for a string and \<open>v\<close> otherwise;
  \<^item> \<open>strictEquals\<close>, \<open>lessThan\<close>, \<open>lessEq\<close>, \<open>greaterThan\<close>, \<open>greaterEq\<close> are
    \<^verbatim>\<open>===\<close>, \<^verbatim>\<open><\<close>, \<^verbatim>\<open><=\<close>, \<^verbatim>\<open>>\<close>, \<^verbatim>\<open>>=\<close> with a defined left operand;
  \<^item> \<open>includesOp a b\<close> is \<^verbatim>\<open>a.includes(b)\<close> (\<open>None\<close> when the call throws).
\<close>

record 'v runtime =
  objectPath_get :: "'v \<Rightarrow> string \<Rightarrow> 'v option"
  loopItemsLength :: "'v option \<Rightarrow> nat"
  isTruthy :: "'v \<Rightarrow> bool"
  localeCompare :: "string \<Rightarrow> string \<Rightarrow> int"
  jsonClone :: "'v \<Rightarrow> 'v option"
  lengthIsZero :: "'v \<Rightarrow> bool option"
  lengthIsPositive :: "'v \<Rightarrow> bool option"
  lowerIfString :: "'v \<Rightarrow> 'v"
  strictEquals :: "'v \<Rightarrow> 'v option \<Rightarrow> bool"
  lessThan :: "'v \<Rightarrow> 'v option \<Rightarrow> bool"
  lessEq :: "'v \<Rightarrow> 'v option \<Rightarrow> bool"
  greaterThan :: "'v \<Rightarrow> 'v option \<Rightarrow> bool"
  greaterEq :: "'v \<Rightarrow> 'v option \<Rightarrow> bool"
  includesOp :: "'v option \<Rightarrow> 'v option \<Rightarrow> bool option"

record 'v condition =
  ref :: string
  operator :: string
  comparisonValue :: "'v option"
  comparisonRef :: "string option"

record loop =
  objectName :: string
  completeObjectPath :: string
  parm :: "string option"

record 'v rule =
  ruleId :: string
  ruleType :: "string option"
  description :: "string option"
  initialDate :: "int option"
  endDate :: "int option"
  conditions :: "'v condition list"

text \<open>One passing comparison, as the evaluators record it.\<close>

record 'v detail =
  instancePath :: string
  instancePathValue :: "'v option"
  detailOperator :: string
  detailComparisonValue :: "'v option"

text \<open>The accumulator of \<^verbatim>\<open>evaluateSimpleConditions\<close>.\<close>

record 'v simpleResult =
  response :: bool
  items :: "'v detail list"

text \<open>The accumulator of one context in \<^verbatim>\<open>evaluateConditionsInContexts\<close>.\<close>

record 'v evaluation =
  result :: bool
  conditionValues :: "'v detail list"

text \<open>
  The private copy of a rule that one call works on: the rule and the fields that
  \<^verbatim>\<open>validateRules\<close> assigns to it (\<open>None\<close> while a field is not assigned).
\<close>

record 'v workingRule = "'v rule" +
  conditionResultContext :: "'v evaluation list option"
  contexts :: "nat list list option"
  contextLimitReached :: "bool option"
  timeLimitReached :: "bool option"
  conditionsResult :: "'v simpleResult option"

record contextCounter =
  count :: nat
  limitReached :: bool
  timeReached :: bool

record errorEntry =
  cause :: string
  errContext :: string

datatype 'v conditionsField =
    PerContext "'v evaluation list"
  | Single "'v evaluation"
  | Items "'v detail list"

record 'v ruleResult =
  resultId :: string
  resultType :: "string option"
  message :: "string option"
  resultConditions :: "'v conditionsField option"
  keyword :: string
  errors :: "errorEntry list option"

record options =
  optContextLimit :: "int option"
  optTimeLimit :: "int option"
  optReturnAllContexts :: "bool option"

text \<open>
  The readings of the clock, in milliseconds. \<open>dateReading i e\<close> is what \<^verbatim>\<open>new Date()\<close>
  gives in the date filter for the rule at index \<open>i\<close> (\<open>e\<close> false for the test of
  \<^verbatim>\<open>initialDate\<close>, true for the test of \<^verbatim>\<open>endDate\<close>); \<open>startReading\<close> is the
  \<^verbatim>\<open>Date.now()\<close> stored in \<^verbatim>\<open>startTime\<close>; \<open>leafReading i k\<close> is the \<^verbatim>\<open>Date.now()\<close>
  of the time check made, for the rule at index \<open>i\<close> of the rules that passed the date
  filter, when the context counter shows \<open>k\<close> (the counter grows before every check, so
  each check of a rule has its own \<open>k\<close>).
\<close>

record clock =
  dateReading :: "nat \<Rightarrow> bool \<Rightarrow> int"
  startReading :: int
  leafReading :: "nat \<Rightarrow> nat \<Rightarrow> int"

section \<open>Loop discovery\<close>

definition extractLoopDetails :: "string \<Rightarrow> string \<times> string" where
  "extractLoopDetails val =
     (let path = split0 val ''[]'';
          lastDotIndex = lastIndexOf path (CHR ''.'');
          name = slice path (lastDotIndex + 1)
      in (name, path))"

text \<open>The two path-bearing fields of a condition, read and written by name.\<close>

datatype field = FieldRef | FieldComparisonRef

fun getField :: "'v condition \<Rightarrow> field \<Rightarrow> string option" where
  "getField c FieldRef = Some (ref c)"
| "getField c FieldComparisonRef = comparisonRef c"

fun setField :: "'v condition \<Rightarrow> field \<Rightarrow> string \<Rightarrow> 'v condition" where
  "setField c FieldRef s = c\<lparr>ref := s\<rparr>"
| "setField c FieldComparisonRef s = c\<lparr>comparisonRef := Some s\<rparr>"

text \<open>
  The inner \<^verbatim>\<open>forEach\<close> of \<^verbatim>\<open>processConditionsForLoops\<close>: in every condition and
  in both fields, every \<^verbatim>\<open>objectName[]\<close> becomes \<^verbatim>\<open>objectName[@k]\<close>.
\<close>

definition annotateField :: "string \<Rightarrow> string \<Rightarrow> field \<Rightarrow> 'v condition \<Rightarrow> 'v condition" where
  "annotateField name k innerField innerCondition =
     (case getField innerCondition innerField of
        None \<Rightarrow> innerCondition
      | Some s \<Rightarrow>
          if s \<noteq> [] \<and> includes_str s (name @ ''[]'')
          then setField innerCondition innerField
                 (replaceAll s (name @ ''[]'') (name @ ''[@'' @ k @ '']''))
          else innerCondition)"

definition annotateConditions :: "string \<Rightarrow> string \<Rightarrow> 'v condition list \<Rightarrow> 'v condition list" where
  "annotateConditions name k conds =
     map (\<lambda>c. annotateField name k FieldComparisonRef (annotateField name k FieldRef c))
       conds"

text \<open>
  The \<^verbatim>\<open>while (refValue.includes('[]'))\<close> loop. Its state is the condition list of
  the rule, the loop list and the local \<^verbatim>\<open>refValue\<close>; \<open>discoverStep\<close> is one round
  of its body. The placeholder number is \<^verbatim>\<open>loops.length - 1\<close>, read after the push.
  The loop need not end: when the name of the array holds a replacement pattern that
  brings the marker back (\<^verbatim>\<open>$&\<close> does), every round leaves a marker in
  \<^verbatim>\<open>refValue\<close>. The result \<open>None\<close> is a loop that never ends.
\<close>

definition discoverStep ::
  "'v condition list \<Rightarrow> loop list \<Rightarrow> string \<Rightarrow> 'v condition list \<times> loop list \<times> string" where
  "discoverStep conds loops refValue =
     (let (name, path) = extractLoopDetails refValue;
          loops1 = (if \<not> list_ex (\<lambda>l. completeObjectPath l = path) loops
                    then loops @ [\<lparr>objectName = name, completeObjectPath = path,
                                    parm = Some (''@'' @ string_of_nat (length loops))\<rparr>]
                    else loops);
          k = string_of_nat (length loops1 - 1);
          conds1 = annotateConditions name k conds;
          refValue1 = replace refValue (name @ ''[]'') (name @ ''[@'' @ k @ '']'')
      in (conds1, loops1, refValue1))"

partial_function (option) discoverWhile ::
  "'v condition list \<Rightarrow> loop list \<Rightarrow> string \<Rightarrow> ('v condition list \<times> loop list) option" where
  [code]: "discoverWhile conds loops refValue =
     (if includes_str refValue ''[]'' then
        (case discoverStep conds loops refValue of
           (conds1, loops1, refValue1) \<Rightarrow> discoverWhile conds1 loops1 refValue1)
      else Some (conds, loops))"

text \<open>
  \<^verbatim>\<open>processConditionsForLoops\<close>: the outer \<^verbatim>\<open>forEach\<close> visits the conditions by index
  (their fields change while it runs, their number does not), and for each the fields
  \<^verbatim>\<open>ref\<close> and \<^verbatim>\<open>comparisonRef\<close> in this order; a field is scanned when it is set and
  not empty. \<open>None\<close> is a scan that never ends.
\<close>

definition processField ::
  "nat \<Rightarrow> field \<Rightarrow> 'v condition list \<times> loop list \<Rightarrow> ('v condition list \<times> loop list) option" where
  "processField conditionIndex fld st =
     (case getField (fst st ! conditionIndex) fld of
        None \<Rightarrow> Some st
      | Some refValue \<Rightarrow>
          if refValue \<noteq> [] then discoverWhile (fst st) (snd st) refValue else Some st)"

fun forEachCondition ::
  "nat list \<Rightarrow> 'v condition list \<times> loop list \<Rightarrow> ('v condition list \<times> loop list) option" where
  "forEachCondition [] st = Some st"
| "forEachCondition (conditionIndex # rest) st =
     (case processField conditionIndex FieldRef st of
        None \<Rightarrow> None
      | Some st1 \<Rightarrow>
          (case processField conditionIndex FieldComparisonRef st1 of
             None \<Rightarrow> None
           | Some st2 \<Rightarrow> forEachCondition rest st2))"

definition processConditionsForLoops ::
  "'v condition list \<Rightarrow> loop list \<Rightarrow> ('v condition list \<times> loop list) option" where
  "processConditionsForLoops conds loops = forEachCondition [0..<length conds] (conds, loops)"

text \<open>
  \<^verbatim>\<open>sortLoopsByPath\<close>: \<^verbatim>\<open>Array.prototype.sort\<close> is stable and sorts the array in
  place, so after the call the variable \<^verbatim>\<open>loops\<close> of \<^verbatim>\<open>validateRules\<close> holds the
  sorted list as well.
\<close>

fun insertLoop :: "(string \<Rightarrow> string \<Rightarrow> int) \<Rightarrow> loop \<Rightarrow> loop list \<Rightarrow> loop list" where
  "insertLoop cmp a [] = [a]"
| "insertLoop cmp a (b # bs) =
     (if cmp (completeObjectPath a) (completeObjectPath b) \<le> 0 then a # b # bs
      else b # insertLoop cmp a bs)"

definition sortLoopsByPath :: "'v runtime \<Rightarrow> loop list \<Rightarrow> loop list" where
  "sortLoopsByPath rt loops = foldr (insertLoop (localeCompare rt)) loops []"

text \<open>
  \<^verbatim>\<open>validateArrayReferences\<close>: the answer is always true; the second component is the
  warning written to the console, when two loops carry the same name.
\<close>

fun indexOf :: "string list \<Rightarrow> string \<Rightarrow> nat" where
  "indexOf [] x = 0"
| "indexOf (y # ys) x = (if y = x then 0 else Suc (indexOf ys x))"

fun join :: "string list \<Rightarrow> string \<Rightarrow> string" where
  "join [] sep = []"
| "join [x] sep = x"
| "join (x # y # ys) sep = x @ sep @ join (y # ys) sep"

definition validateArrayReferences :: "loop list \<Rightarrow> 'v workingRule \<Rightarrow> bool \<times> string option" where
  "validateArrayReferences sortedLoops rule =
     (let paths = map completeObjectPath sortedLoops;
          names = map objectName sortedLoops;
          duplicates = map snd (filter (\<lambda>(idx, name). indexOf names name \<noteq> idx)
                                  (zip [0..<length names] names))
      in (True,
          if length duplicates > 0
          then Some (''Warning: Rule ['' @ ruleId rule
                       @ ''] references multiple arrays with the same name (''
                       @ join duplicates '', '' @ ''), but different paths: ''
                       @ join paths '', '')
          else None))"

section \<open>Context generation\<close>

text \<open>
  \<^verbatim>\<open>explodeContexts\<close> with its \<^verbatim>\<open>for\<close> loop as the second function \<open>explodeFor\<close>,
  whose state is the index \<open>i\<close>, the list \<^verbatim>\<open>totalTuples\<close> and the shared counter. A
  call returns its tuples and the counter as it leaves it. \<open>now k\<close> is the reading of the
  clock at the time check made when the counter shows \<open>k\<close>; on whole numbers
  \<^verbatim>\<open>(Date.now() - startTime) / 1000 > timeLimit\<close> is
  \<open>now k - startTime > 1000 * timeLimit\<close>. The parameter \<^verbatim>\<open>conditions\<close> of the source is
  never read and is left out. \<open>newLoops\<close> is the list \<^verbatim>\<open>newLoops\<close> of round \<open>i\<close>; its
  loops are built without the field \<^verbatim>\<open>parm\<close>.
\<close>

definition newLoops :: "loop \<Rightarrow> nat \<Rightarrow> loop list \<Rightarrow> loop list" where
  "newLoops currentLoop i loops =
     map (\<lambda>item.
            \<lparr>objectName = objectName item,
             completeObjectPath = replace (completeObjectPath item)
               (completeObjectPath currentLoop @ ''['' @ template (parm currentLoop) @ '']'')
               (completeObjectPath currentLoop @ ''.'' @ string_of_nat i),
             parm = None\<rparr>) loops"

function explodeContexts ::
    "'v runtime \<Rightarrow> (nat \<Rightarrow> int) \<Rightarrow> 'v \<Rightarrow> loop list \<Rightarrow> nat list \<Rightarrow> int \<Rightarrow> int \<Rightarrow> int
       \<Rightarrow> contextCounter \<Rightarrow> nat list list \<times> contextCounter"
  and explodeFor ::
    "'v runtime \<Rightarrow> (nat \<Rightarrow> int) \<Rightarrow> 'v \<Rightarrow> loop \<Rightarrow> loop list \<Rightarrow> nat \<Rightarrow> nat \<Rightarrow> nat list
       \<Rightarrow> int \<Rightarrow> int \<Rightarrow> int \<Rightarrow> nat list list \<Rightarrow> contextCounter
       \<Rightarrow> nat list list \<times> contextCounter"
where
  "explodeContexts rt now documentJson [] currentTuple contextLimit startTime timeLimit cc =
     (let cc1 = cc\<lparr>count := count cc + 1\<rparr> in
      if int (count cc1) > contextLimit then ([], cc1\<lparr>limitReached := True\<rparr>)
      else if now (count cc1) - startTime > 1000 * timeLimit
      then ([], cc1\<lparr>timeReached := True\<rparr>)
      else ([currentTuple], cc1))"
| "explodeContexts rt now documentJson (currentLoop # loops) currentTuple contextLimit startTime
       timeLimit cc =
     explodeFor rt now documentJson currentLoop loops
       (loopItemsLength rt (objectPath_get rt documentJson (completeObjectPath currentLoop)))
       0 currentTuple contextLimit startTime timeLimit [] cc"
| "explodeFor rt now documentJson currentLoop loops n i currentTuple contextLimit startTime
       timeLimit totalTuples cc =
     (if \<not> i < n then (totalTuples, cc)
      else if limitReached cc \<or> timeReached cc then (totalTuples, cc)
      else if length loops > 0 then
        (case explodeContexts rt now documentJson (newLoops currentLoop i loops)
                (currentTuple @ [i]) contextLimit startTime timeLimit cc of
           (tuples, cc') \<Rightarrow>
             explodeFor rt now documentJson currentLoop loops n (i + 1) currentTuple
               contextLimit startTime timeLimit
               (if \<not> limitReached cc' \<and> \<not> timeReached cc' then totalTuples @ tuples
                else totalTuples)
               cc')
      else
        (let cc1 = cc\<lparr>count := count cc + 1\<rparr> in
         if int (count cc1) > contextLimit then (totalTuples, cc1\<lparr>limitReached := True\<rparr>)
         else if now (count cc1) - startTime > 1000 * timeLimit
         then (totalTuples, cc1\<lparr>timeReached := True\<rparr>)
         else explodeFor rt now documentJson currentLoop loops n (i + 1) currentTuple
                contextLimit startTime timeLimit (totalTuples @ [currentTuple @ [i]]) cc1))"
  by pat_completeness auto
termination
  by (relation "measures
        [\<lambda>x. case x of
                 Inl (rt, now, d, loops, r) \<Rightarrow> 2 * length loops
               | Inr (rt, now, d, l, loops, r) \<Rightarrow> 2 * length loops + 1,
         \<lambda>x. case x of
                 Inl r \<Rightarrow> 0
               | Inr (rt, now, d, l, loops, n, i, r) \<Rightarrow> n - i]")
     (auto simp: newLoops_def)

declare explodeContexts.simps [simp del] explodeFor.simps [simp del]

section \<open>Path instantiation\<close>

text \<open>
  \<^verbatim>\<open>replaceContextValues\<close>: \<^verbatim>\<open>loops.forEach((loop, loopIndex) => ...)\<close> reads only the
  position \<^verbatim>\<open>loopIndex\<close> of each loop. \<^verbatim>\<open>context[loopIndex]\<close> beyond the end of the
  tuple is \<^verbatim>\<open>undefined\<close> and the template prints it so.
\<close>

definition contextAt :: "nat list \<Rightarrow> nat \<Rightarrow> string" where
  "contextAt context loopIndex =
     (if loopIndex < length context then string_of_nat (context ! loopIndex) else ''undefined'')"

definition replaceContextValues :: "'v condition \<Rightarrow> loop list \<Rightarrow> nat list \<Rightarrow> 'v condition" where
  "replaceContextValues condition loops context =
     (let (adjustedRef, adjustedComparisonRef) =
        fold (\<lambda>loopIndex (adjustedRef, adjustedComparisonRef).
                (replaceAll adjustedRef (''[@'' @ string_of_nat loopIndex @ '']'')
                   (''.'' @ contextAt context loopIndex),
                 (case adjustedComparisonRef of
                    None \<Rightarrow> None
                  | Some s \<Rightarrow>
                      if s \<noteq> []
                      then Some (replaceAll s (''[@'' @ string_of_nat loopIndex @ '']'')
                                   (''.'' @ contextAt context loopIndex))
                      else Some s)))
          [0..<length loops] (ref condition, comparisonRef condition)
      in \<lparr>ref = adjustedRef, operator = operator condition,
          comparisonValue = comparisonValue condition,
          comparisonRef = adjustedComparisonRef\<rparr>)"

section \<open>Condition evaluation\<close>

text \<open>
  \<^verbatim>\<open>testCondition\<close>. Whatever is thrown inside its \<^verbatim>\<open>try\<close> block, by a property read,
  by a call of \<^verbatim>\<open>includes\<close> or by the last \<^verbatim>\<open>throw\<close> for an operator that is not
  supported, is caught and thrown again with one message: \<open>Inl\<close> of that message.
\<close>

definition testCondition :: "'v runtime \<Rightarrow> 'v option \<Rightarrow> 'v option \<Rightarrow> string \<Rightarrow> string + bool" where
  "testCondition rt leftValue rightValue oper =
     (if oper = ''exists'' then Inr (leftValue \<noteq> None)
      else if oper = ''does_not_exists'' then Inr (leftValue = None)
      else case leftValue of
        None \<Rightarrow> Inr False
      | Some lv \<Rightarrow>
         (case (if oper = ''is_empty'' then lengthIsZero rt lv
                else if oper = ''is_not_empty'' then lengthIsPositive rt lv
                else let l = lowerIfString rt lv;
                         r = map_option (lowerIfString rt) rightValue in
                  if oper = ''='' then Some (strictEquals rt l r)
                  else if oper = ''<>'' then Some (\<not> strictEquals rt l r)
                  else if oper = ''<'' then Some (lessThan rt l r)
                  else if oper = ''<='' then Some (lessEq rt l r)
                  else if oper = ''>'' then Some (greaterThan rt l r)
                  else if oper = ''>='' then Some (greaterEq rt l r)
                  else if oper = ''contains'' then includesOp rt (Some l) r
                  else if oper = ''does_not_contains'' then map_option Not (includesOp rt (Some l) r)
                  else if oper = ''is_contained'' then includesOp rt r (Some l)
                  else if oper = ''in'' then includesOp rt r (Some l)
                  else if oper = ''not_in'' then map_option Not (includesOp rt r (Some l))
                  else None)
          of Some b \<Rightarrow> Inr b
           | None \<Rightarrow> Inl (''Failed to test condition with operator ['' @ oper @ ''].'')))"

text \<open>\<^verbatim>\<open>getValueWithContext\<close>; a side context that is \<^verbatim>\<open>null\<close> is \<open>None\<close>.\<close>

definition getValueWithContext :: "'v runtime \<Rightarrow> 'v \<Rightarrow> string \<Rightarrow> 'v option \<Rightarrow> 'v option" where
  "getValueWithContext rt documentJson path contextObj =
     (case contextObj of
        Some c \<Rightarrow>
          if prefix ''_context.'' path \<and> isTruthy rt c
          then objectPath_get rt c (replace path ''_context.'' '''')
          else objectPath_get rt documentJson path
      | None \<Rightarrow> objectPath_get rt documentJson path)"

text \<open>
  The body of the \<^verbatim>\<open>try\<close> block that both evaluators run for one condition: the left
  value, the right value and the test, or \<open>None\<close> when something is thrown (the condition
  carries both comparison fields, or \<^verbatim>\<open>testCondition\<close> throws).
\<close>

definition tryCondition ::
  "'v runtime \<Rightarrow> 'v \<Rightarrow> 'v option \<Rightarrow> 'v condition \<Rightarrow> ('v option \<times> 'v option \<times> bool) option" where
  "tryCondition rt documentJson contextObj condition =
     (if comparisonValue condition \<noteq> None \<and> comparisonRef condition \<noteq> None then None
      else
        let leftValue = getValueWithContext rt documentJson (ref condition) contextObj;
            rightValue = (case comparisonRef condition of
                            Some p \<Rightarrow> getValueWithContext rt documentJson p contextObj
                          | None \<Rightarrow> comparisonValue condition)
        in case testCondition rt leftValue rightValue (operator condition) of
             Inl e \<Rightarrow> None
           | Inr test \<Rightarrow> Some (leftValue, rightValue, test))"

definition mkDetail :: "'v condition \<Rightarrow> 'v option \<Rightarrow> 'v option \<Rightarrow> 'v detail" where
  "mkDetail condition leftValue rightValue =
     \<lparr>instancePath = ref condition, instancePathValue = leftValue,
      detailOperator = operator condition, detailComparisonValue = rightValue\<rparr>"

text \<open>\<^verbatim>\<open>evaluateSimpleConditions\<close>: the \<^verbatim>\<open>reduce\<close> over the conditions.\<close>

fun reduceSimple ::
  "'v runtime \<Rightarrow> 'v \<Rightarrow> 'v option \<Rightarrow> 'v condition list \<Rightarrow> 'v simpleResult \<Rightarrow> string + 'v simpleResult" where
  "reduceSimple rt documentJson contextObj [] acc = Inr acc"
| "reduceSimple rt documentJson contextObj (condition # rest) acc =
     (if response acc then
        (case tryCondition rt documentJson contextObj condition of
           None \<Rightarrow> Inl ''Failed to evaluate conditions in one context.''
         | Some (leftValue, rightValue, test) \<Rightarrow>
             reduceSimple rt documentJson contextObj rest
               \<lparr>response = test,
                items = (if test then items acc @ [mkDetail condition leftValue rightValue]
                         else items acc)\<rparr>)
      else reduceSimple rt documentJson contextObj rest \<lparr>response = False, items = items acc\<rparr>)"

definition evaluateSimpleConditions ::
  "'v runtime \<Rightarrow> 'v \<Rightarrow> 'v condition list \<Rightarrow> 'v option \<Rightarrow> string + 'v simpleResult" where
  "evaluateSimpleConditions rt documentJson conds contextObj =
     reduceSimple rt documentJson contextObj conds \<lparr>response = True, items = []\<rparr>"

text \<open>
  \<^verbatim>\<open>evaluateConditionsInContexts\<close>: \<open>reduceInContext\<close> is the \<^verbatim>\<open>reduce\<close> run for one
  context, \<open>evaluateContext\<close> the body of the \<^verbatim>\<open>for\<close> loop up to it, and \<open>forContexts\<close>
  the loop over \<^verbatim>\<open>rule.contexts\<close> with its early \<^verbatim>\<open>return\<close>.
\<close>

fun reduceInContext ::
  "'v runtime \<Rightarrow> 'v \<Rightarrow> 'v option \<Rightarrow> string \<Rightarrow> 'v condition list \<Rightarrow> 'v evaluation
     \<Rightarrow> string + 'v evaluation" where
  "reduceInContext rt documentJson contextObj rid [] prevItem = Inr prevItem"
| "reduceInContext rt documentJson contextObj rid (condition # rest) prevItem =
     (if result prevItem then
        (case tryCondition rt documentJson contextObj condition of
           None \<Rightarrow> Inl (''Failed to evaluate conditions in one context in rule ['' @ rid @ ''].'')
         | Some (leftValue, rightValue, test) \<Rightarrow>
             if test
             then reduceInContext rt documentJson contextObj rid rest
                    \<lparr>result = True,
                     conditionValues = conditionValues prevItem
                                         @ [mkDetail condition leftValue rightValue]\<rparr>
             else reduceInContext rt documentJson contextObj rid rest
                    \<lparr>result = False, conditionValues = conditionValues prevItem\<rparr>)
      else reduceInContext rt documentJson contextObj rid rest
             \<lparr>result = False, conditionValues = conditionValues prevItem\<rparr>)"

definition evaluateContext ::
  "'v runtime \<Rightarrow> 'v \<Rightarrow> 'v workingRule \<Rightarrow> loop list \<Rightarrow> 'v option \<Rightarrow> nat list
     \<Rightarrow> string + 'v evaluation" where
  "evaluateContext rt documentJson rule loops contextObj context =
     (let conditionsInContext =
            map (\<lambda>condition. replaceContextValues condition loops context) (conditions rule)
      in reduceInContext rt documentJson contextObj (ruleId rule) conditionsInContext
           \<lparr>result = True, conditionValues = []\<rparr>)"

fun forContexts ::
  "'v runtime \<Rightarrow> 'v \<Rightarrow> 'v workingRule \<Rightarrow> loop list \<Rightarrow> 'v option \<Rightarrow> bool \<Rightarrow> nat list list
     \<Rightarrow> 'v evaluation list \<Rightarrow> string + 'v evaluation list" where
  "forContexts rt documentJson rule loops contextObj returnAllContexts [] results = Inr results"
| "forContexts rt documentJson rule loops contextObj returnAllContexts (context # rest) results =
     (case evaluateContext rt documentJson rule loops contextObj context of
        Inl e \<Rightarrow> Inl e
      | Inr evaluation \<Rightarrow>
          if result evaluation then
            (if \<not> returnAllContexts then Inr (results @ [evaluation])
             else forContexts rt documentJson rule loops contextObj returnAllContexts rest
                    (results @ [evaluation]))
          else forContexts rt documentJson rule loops contextObj returnAllContexts rest results)"

definition evaluateConditionsInContexts ::
  "'v runtime \<Rightarrow> 'v \<Rightarrow> 'v workingRule \<Rightarrow> loop list \<Rightarrow> 'v option \<Rightarrow> bool
     \<Rightarrow> string + 'v evaluation list" where
  "evaluateConditionsInContexts rt documentJson rule loops contextObj returnAllContexts =
     (case contexts rule of
        None \<Rightarrow> Inl ''rule.contexts is not iterable''
      | Some cs \<Rightarrow> forContexts rt documentJson rule loops contextObj returnAllContexts cs [])"

section \<open>Rule evaluation\<close>

text \<open>
  \<^verbatim>\<open>addRuleToResults\<close>. Nothing in its \<^verbatim>\<open>try\<close> block can throw on the values of the
  model, so its \<^verbatim>\<open>catch\<close> block has no branch here.
\<close>

definition addRuleToResults :: "'v workingRule \<Rightarrow> 'v ruleResult list \<Rightarrow> 'v ruleResult list" where
  "addRuleToResults rule results =
     (case (case conditionResultContext rule of
              Some crc \<Rightarrow> if length crc > 0 then Some crc else None
            | None \<Rightarrow> None) of
        Some crc \<Rightarrow>
          results @ [\<lparr>resultId = ruleId rule, resultType = ruleType rule,
                       message = description rule,
                       resultConditions = Some (PerContext crc),
                       keyword = ''conditional'', errors = None\<rparr>]
      | None \<Rightarrow>
          (case conditionsResult rule of
             Some cr \<Rightarrow>
               if response cr \<and> length (items cr) > 0
               then results @ [\<lparr>resultId = ruleId rule, resultType = ruleType rule,
                                 message = description rule,
                                 resultConditions =
                                   Some (Single \<lparr>result = True, conditionValues = items cr\<rparr>),
                                 keyword = ''conditional'', errors = None\<rparr>]
               else results
           | None \<Rightarrow> results))"

text \<open>The entry pushed when either budget flag of the rule is set.\<close>

definition contextLimitEntry :: "'v workingRule \<Rightarrow> int \<Rightarrow> int \<Rightarrow> 'v ruleResult" where
  "contextLimitEntry rule contextLimit timeLimit =
     \<lparr>resultId = ruleId rule, resultType = ruleType rule, message = description rule,
      resultConditions = None,
      keyword = ''context_limit'',
      errors = Some
        ((if contextLimitReached rule = Some True
          then [\<lparr>cause = ''Context limit reached'',
                  errContext = ''The number of contexts exceeded the limit (''
                               @ string_of_int contextLimit @ '').''\<rparr>]
          else [])
         @ (if timeLimitReached rule = Some True
            then [\<lparr>cause = ''Time limit reached'',
                    errContext = ''The time limit of '' @ string_of_int timeLimit
                                 @ '' seconds was exceeded during context generation.''\<rparr>]
            else []))\<rparr>"

text \<open>The entry pushed by the \<^verbatim>\<open>catch\<close> block of \<^verbatim>\<open>validateRules\<close>.\<close>

definition errorResult :: "'v workingRule \<Rightarrow> string \<Rightarrow> 'v ruleResult" where
  "errorResult rule msg =
     \<lparr>resultId = ruleId rule, resultType = ruleType rule, message = description rule,
      resultConditions = Some (Items (case conditionsResult rule of
                                        Some cr \<Rightarrow> items cr | None \<Rightarrow> [])),
      keyword = ''conditional'',
      errors = Some [\<lparr>cause = msg,
                       errContext = ''Error occurred while processing rule ['' @ ruleId rule
                                    @ '']''\<rparr>]\<rparr>"

text \<open>
  The \<^verbatim>\<open>try\<close> block of \<^verbatim>\<open>validateRules\<close> for one rule, on the rule object and the
  result list. \<open>Some (Inr _)\<close> is the normal end with the rule and the results as the
  block leaves them; \<open>Some (Inl _)\<close> is a throw, with the message and the rule as it is
  at that moment (the block pushes nothing before its last two statements, which do not
  throw); \<open>None\<close> is a block that never ends, which only loop discovery can cause. After
  \<^verbatim>\<open>sortLoopsByPath(loops)\<close> the variable \<^verbatim>\<open>loops\<close> is the sorted list.
\<close>

definition tryRule ::
  "'v runtime \<Rightarrow> (nat \<Rightarrow> int) \<Rightarrow> 'v \<Rightarrow> 'v option \<Rightarrow> int \<Rightarrow> int \<Rightarrow> bool \<Rightarrow> int
     \<Rightarrow> 'v workingRule \<Rightarrow> 'v ruleResult list
     \<Rightarrow> ((string \<times> 'v workingRule) + ('v workingRule \<times> 'v ruleResult list)) option" where
  "tryRule rt now documentJson contextObj contextLimit timeLimit returnAllContexts startTime
           rule results =
     (let rule1 = rule\<lparr>conditionResultContext := Some []\<rparr> in
      case processConditionsForLoops (conditions rule1) [] of
        None \<Rightarrow> None
      | Some (conds, loops0) \<Rightarrow>
          Some
           (let rule2 = rule1\<lparr>conditions := conds\<rparr>;
                loops = sortLoopsByPath rt loops0;
                sortedLoops = loops
            in if \<not> fst (validateArrayReferences sortedLoops rule2) then Inr (rule2, results)
               else
                 let contextCounter = \<lparr>count = 0, limitReached = False, timeReached = False\<rparr>;
                     (tuples, cc) = explodeContexts rt now documentJson loops [] contextLimit
                                      startTime timeLimit contextCounter;
                     rule3 = rule2\<lparr>contexts := Some tuples,
                                   contextLimitReached := Some (limitReached cc),
                                   timeLimitReached := Some (timeReached cc)\<rparr>
                 in case (if length tuples = 0
                          then (case evaluateSimpleConditions rt documentJson (conditions rule3)
                                       contextObj of
                                  Inl e \<Rightarrow> Inl e
                                | Inr r \<Rightarrow> Inr (rule3\<lparr>conditionsResult := Some r\<rparr>))
                          else (case evaluateConditionsInContexts rt documentJson rule3 loops
                                       contextObj returnAllContexts of
                                  Inl e \<Rightarrow> Inl e
                                | Inr r \<Rightarrow> Inr (rule3\<lparr>conditionResultContext := Some r\<rparr>)))
                    of Inl e \<Rightarrow> Inl (e, rule3)
                     | Inr rule4 \<Rightarrow>
                         let results1 = addRuleToResults rule4 results
                         in Inr (rule4,
                                 if contextLimitReached rule4 = Some True
                                    \<or> timeLimitReached rule4 = Some True
                                 then results1 @ [contextLimitEntry rule4 contextLimit timeLimit]
                                 else results1)))"

text \<open>
  \<^verbatim>\<open>validRulesByDate.forEach\<close>: a rule whose block throws gets the entry of the
  \<^verbatim>\<open>catch\<close> block, and the loop goes on with the next rule. When the block of a rule
  never ends, neither does the loop.
\<close>

fun forEachRule ::
  "'v runtime \<Rightarrow> (nat \<Rightarrow> nat \<Rightarrow> int) \<Rightarrow> 'v \<Rightarrow> 'v option \<Rightarrow> int \<Rightarrow> int \<Rightarrow> bool \<Rightarrow> int
     \<Rightarrow> nat \<Rightarrow> 'v workingRule list \<Rightarrow> 'v ruleResult list \<Rightarrow> 'v ruleResult list option" where
  "forEachRule rt leaf documentJson contextObj contextLimit timeLimit returnAllContexts
       startTime i [] results = Some results"
| "forEachRule rt leaf documentJson contextObj contextLimit timeLimit returnAllContexts
       startTime i (rule # rest) results =
     (case tryRule rt (leaf i) documentJson contextObj contextLimit timeLimit
             returnAllContexts startTime rule results of
        None \<Rightarrow> None
      | Some (Inr (rule', results')) \<Rightarrow>
          forEachRule rt leaf documentJson contextObj contextLimit timeLimit returnAllContexts
            startTime (i + 1) rest results'
      | Some (Inl (msg, rule')) \<Rightarrow>
          forEachRule rt leaf documentJson contextObj contextLimit timeLimit returnAllContexts
            startTime (i + 1) rest (results @ [errorResult rule' msg]))"

text \<open>
  \<^verbatim>\<open>JSON.parse(JSON.stringify(rules))\<close> on one rule: the fields of the model that are
  text or numbers come back as they are, a comparison value goes through \<open>jsonClone\<close>, and
  the copy has none of the working fields.
\<close>

definition copyCondition :: "'v runtime \<Rightarrow> 'v condition \<Rightarrow> 'v condition" where
  "copyCondition rt c =
     c\<lparr>comparisonValue := (case comparisonValue c of None \<Rightarrow> None | Some v \<Rightarrow> jsonClone rt v)\<rparr>"

definition copyRule :: "'v runtime \<Rightarrow> 'v rule \<Rightarrow> 'v workingRule" where
  "copyRule rt r =
     \<lparr>ruleId = ruleId r, ruleType = ruleType r, description = description r,
      initialDate = initialDate r, endDate = endDate r,
      conditions = map (copyCondition rt) (conditions r),
      conditionResultContext = None, contexts = None, contextLimitReached = None,
      timeLimitReached = None, conditionsResult = None\<rparr>"

text \<open>
  \<^verbatim>\<open>filterRulesByDate\<close>. A date of a rule is a number of milliseconds, which
  \<^verbatim>\<open>new Date(...)\<close> reads as a time. A date that is missing or 0 is not truthy and
  passes. A number beyond 8640000000000000 on either side gives an invalid date, and a
  comparison with an invalid date is false. \<open>withinDates\<close> is the test that the filter
  applies to the rule at index \<open>i\<close>.
\<close>

definition validTime :: "int \<Rightarrow> bool" where
  "validTime d = (- 8640000000000000 \<le> d \<and> d \<le> 8640000000000000)"

definition withinDates :: "clock \<Rightarrow> nat \<Rightarrow> 'v workingRule \<Rightarrow> bool" where
  "withinDates clk i rule =
     (let isAfterStartDate = (case initialDate rule of
                                Some d \<Rightarrow> if d \<noteq> 0
                                          then validTime d \<and> d \<le> dateReading clk i False
                                          else True
                              | None \<Rightarrow> True);
          isBeforeEndDate = (case endDate rule of
                               Some d \<Rightarrow> if d \<noteq> 0
                                         then validTime d \<and> d \<ge> dateReading clk i True
                                         else True
                             | None \<Rightarrow> True)
      in isAfterStartDate \<and> isBeforeEndDate)"

definition filterRulesByDate :: "clock \<Rightarrow> 'v workingRule list \<Rightarrow> 'v workingRule list" where
  "filterRulesByDate clk rules =
     map snd (filter (\<lambda>(i, rule). withinDates clk i rule) (zip [0..<length rules] rules))"

text \<open>\<^verbatim>\<open>validateRules\<close>; \<open>None\<close> is a call that never returns.\<close>

definition validateRules ::
  "'v runtime \<Rightarrow> clock \<Rightarrow> 'v \<Rightarrow> 'v rule list \<Rightarrow> 'v option \<Rightarrow> options
     \<Rightarrow> 'v ruleResult list option" where
  "validateRules rt clk documentJson rules contextObj opts =
     (let rulesObj = map (copyRule rt) rules;
          contextLimit = (case optContextLimit opts of Some l \<Rightarrow> l | None \<Rightarrow> 10000);
          timeLimit = (case optTimeLimit opts of Some t \<Rightarrow> t | None \<Rightarrow> 200);
          returnAllContexts = (case optReturnAllContexts opts of Some b \<Rightarrow> b | None \<Rightarrow> True);
          results = [];
          validRulesByDate = filterRulesByDate clk rulesObj;
          startTime = startReading clk
      in forEachRule rt (leafReading clk) documentJson contextObj contextLimit timeLimit
           returnAllContexts startTime 0 validRulesByDate results)"

section \<open>A runtime over JSON values\<close>

text \<open>
  An instance of the runtime, used to run the engine on concrete documents. Values are
  JSON values whose numbers are whole, of a size that a double holds exactly, and whose
  strings are ASCII text. \<open>jsonGet\<close>
  follows \<^verbatim>\<open>objectPath.get\<close> of the library object-path: an empty path gives the object
  itself, the path is cut at its dots, and each key is read as an own property (an index
  or \<^verbatim>\<open>length\<close> on an array or a string, a key of an object); a missing property or a
  step into \<^verbatim>\<open>null\<close> gives \<^verbatim>\<open>undefined\<close>.

  The instance has no notion of the identity of an object: \<^verbatim>\<open>===\<close> and the search of
  \<^verbatim>\<open>Array.prototype.includes\<close> answer false for an array or an object, also where the
  two operands are one object of the document. A string converts to a number when it is
  a whole decimal numeral; numerals with a fraction, an exponent or a radix prefix are
  left out. The theorems that fix this instance use it on whole numbers and on paths of
  letters, digits and punctuation.
\<close>

datatype json =
    JNull
  | JBool bool
  | JNum int
  | JStr string
  | JArr "json list"
  | JObj "(string \<times> json) list"

fun splitDots :: "string \<Rightarrow> string list" where
  "splitDots [] = [[]]"
| "splitDots (c # s) =
     (if c = CHR ''.'' then [] # splitDots s
      else (case splitDots s of [] \<Rightarrow> [[c]] | x # xs \<Rightarrow> (c # x) # xs))"

text \<open>The index that a key denotes on a list of the given length, if it denotes one.\<close>

definition indexKey :: "string \<Rightarrow> nat \<Rightarrow> nat option" where
  "indexKey k len = find (\<lambda>n. string_of_nat n = k) [0..<len]"

fun property :: "json \<Rightarrow> string \<Rightarrow> json option" where
  "property (JObj kvs) k = map_of kvs k"
| "property (JArr xs) k =
     (if k = ''length'' then Some (JNum (int (length xs)))
      else map_option (\<lambda>n. xs ! n) (indexKey k (length xs)))"
| "property (JStr s) k =
     (if k = ''length'' then Some (JNum (int (length s)))
      else map_option (\<lambda>n. JStr [s ! n]) (indexKey k (length s)))"
| "property v k = None"

fun getPath :: "json \<Rightarrow> string list \<Rightarrow> json option" where
  "getPath obj [] = Some obj"
| "getPath obj (k # ks) =
     (case property obj k of None \<Rightarrow> None | Some v \<Rightarrow> getPath v ks)"

definition jsonGet :: "json \<Rightarrow> string \<Rightarrow> json option" where
  "jsonGet obj path = (if path = [] then Some obj else getPath obj (splitDots path))"

fun jsonTruthy :: "json \<Rightarrow> bool" where
  "jsonTruthy JNull = False"
| "jsonTruthy (JBool b) = b"
| "jsonTruthy (JNum n) = (n \<noteq> 0)"
| "jsonTruthy (JStr s) = (s \<noteq> [])"
| "jsonTruthy v = True"

text \<open>
  The order of two strings by the codes of their characters, as \<^verbatim>\<open><\<close> compares two
  strings.
\<close>

fun compareStrings :: "string \<Rightarrow> string \<Rightarrow> int" where
  "compareStrings [] [] = 0"
| "compareStrings [] (b # bs) = - 1"
| "compareStrings (a # as) [] = 1"
| "compareStrings (a # as) (b # bs) =
     (if a = b then compareStrings as bs
      else if (of_char a :: nat) < of_char b then - 1 else 1)"

definition lowerChar :: "char \<Rightarrow> char" where
  "lowerChar c =
     (let n = (of_char c :: nat) in if 65 \<le> n \<and> n \<le> 90 then char_of (n + 32) else c)"

text \<open>
  \<^verbatim>\<open>a.localeCompare(b)\<close> on printable ASCII text, in the collation order of the root
  locale, which the English locales share: the space, then the punctuation and the symbols
  in the order of \<open>collationOrder\<close>, then the digits, then the letters. Two strings are
  compared first with the case of their letters ignored; when that gives no difference,
  the first place where the case differs decides, the small letter first.
\<close>

definition collationOrder :: string where
  "collationOrder =
     [CHR 0x20, CHR ''_'', CHR ''-'', CHR '','', CHR '';'', CHR '':'', CHR ''!'', CHR ''?'',
      CHR ''.'', CHR 0x27, CHR 0x22, CHR ''('', CHR '')'', CHR ''['', CHR '']'', CHR ''{'',
      CHR ''}'', CHR ''@'', CHR ''*'', CHR ''/'', CHR 0x5C, CHR ''&'', CHR ''#'', CHR ''%'',
      CHR 0x60, CHR ''^'', CHR ''+'', CHR ''<'', CHR ''='', CHR ''>'', CHR ''|'', CHR ''~'',
      CHR ''$''] @ ''0123456789abcdefghijklmnopqrstuvwxyz''"

fun position :: "char list \<Rightarrow> char \<Rightarrow> nat" where
  "position [] x = 0"
| "position (y # ys) x = (if y = x then 0 else Suc (position ys x))"

definition primaryWeight :: "char \<Rightarrow> nat" where
  "primaryWeight c = position collationOrder (lowerChar c)"

fun comparePrimary :: "string \<Rightarrow> string \<Rightarrow> int" where
  "comparePrimary [] [] = 0"
| "comparePrimary [] (b # bs) = - 1"
| "comparePrimary (a # as) [] = 1"
| "comparePrimary (a # as) (b # bs) =
     (if primaryWeight a = primaryWeight b then comparePrimary as bs
      else if primaryWeight a < primaryWeight b then - 1 else 1)"

fun compareCase :: "string \<Rightarrow> string \<Rightarrow> int" where
  "compareCase (a # as) (b # bs) =
     (if a = b then compareCase as bs else if lowerChar a = a then - 1 else 1)"
| "compareCase as bs = 0"

definition collate :: "string \<Rightarrow> string \<Rightarrow> int" where
  "collate a b = (if comparePrimary a b = 0 then compareCase a b else comparePrimary a b)"

fun jsonLengthIsZero :: "json \<Rightarrow> bool option" where
  "jsonLengthIsZero JNull = None"
| "jsonLengthIsZero (JArr xs) = Some (xs = [])"
| "jsonLengthIsZero (JStr s) = Some (s = [])"
| "jsonLengthIsZero (JObj kvs) = Some (map_of kvs ''length'' = Some (JNum 0))"
| "jsonLengthIsZero v = Some False"

fun jsonLower :: "json \<Rightarrow> json" where
  "jsonLower (JStr s) = JStr (map lowerChar s)"
| "jsonLower v = v"

fun isPrimitive :: "json \<Rightarrow> bool" where
  "isPrimitive (JArr xs) = False"
| "isPrimitive (JObj kvs) = False"
| "isPrimitive v = True"

definition jsonStrictEquals :: "json \<Rightarrow> json option \<Rightarrow> bool" where
  "jsonStrictEquals l r = (isPrimitive l \<and> r = Some l)"

text \<open>
  The text that a value converts to (\<^verbatim>\<open>ToString\<close>); an array prints its items with
  commas between them, \<^verbatim>\<open>null\<close> among them as nothing.
\<close>

fun jsonToString :: "json \<Rightarrow> string" where
  "jsonToString JNull = ''null''"
| "jsonToString (JBool b) = (if b then ''true'' else ''false'')"
| "jsonToString (JNum n) = string_of_int n"
| "jsonToString (JStr s) = s"
| "jsonToString (JArr xs) =
     join (map (\<lambda>x. if x = JNull then [] else jsonToString x) xs) '',''"
| "jsonToString (JObj kvs) = ''[object Object]''"

text \<open>
  The whole number that a string denotes: spaces around it are dropped, the empty text
  denotes 0, and a sign may stand before the digits.
\<close>

definition digitValue :: "char \<Rightarrow> nat option" where
  "digitValue c =
     (let n = (of_char c :: nat) in if 48 \<le> n \<and> n \<le> 57 then Some (n - 48) else None)"

definition digitsValue :: "string \<Rightarrow> nat option" where
  "digitsValue s =
     (if s = [] then None
      else fold (\<lambda>c acc. case (acc, digitValue c) of
                             (Some a, Some d) \<Rightarrow> Some (10 * a + d)
                           | _ \<Rightarrow> None) s (Some 0))"

definition isSpace :: "char \<Rightarrow> bool" where
  "isSpace c = (c = CHR 0x20 \<or> c = CHR 0x09 \<or> c = CHR 0x0A \<or> c = CHR 0x0B
                \<or> c = CHR 0x0C \<or> c = CHR 0x0D)"

definition trim :: "string \<Rightarrow> string" where
  "trim s = rev (dropWhile isSpace (rev (dropWhile isSpace s)))"

definition stringToNumber :: "string \<Rightarrow> int option" where
  "stringToNumber s =
     (case trim s of
        [] \<Rightarrow> Some 0
      | c # t \<Rightarrow>
          if c = CHR ''-'' then map_option (\<lambda>n. - int n) (digitsValue t)
          else if c = CHR ''+'' then map_option int (digitsValue t)
          else map_option int (digitsValue (c # t)))"

text \<open>
  The number a value converts to in a comparison (\<open>None\<close> is \<^verbatim>\<open>NaN\<close>). An array or
  an object is first converted to its text.
\<close>

fun toNumber :: "json \<Rightarrow> int option" where
  "toNumber (JNum n) = Some n"
| "toNumber JNull = Some 0"
| "toNumber (JBool b) = Some (if b then 1 else 0)"
| "toNumber v = stringToNumber (jsonToString v)"

text \<open>
  The rounds of \<^verbatim>\<open>for (let i = 0; i < (x ?? []).length; i++)\<close> and the test
  \<^verbatim>\<open>v.length > 0\<close>: an array and a string have their length, an object has the
  property of that name if it has one, which is then compared as a number.
\<close>

fun jsonLoopItemsLength :: "json option \<Rightarrow> nat" where
  "jsonLoopItemsLength (Some (JArr xs)) = length xs"
| "jsonLoopItemsLength (Some (JStr s)) = length s"
| "jsonLoopItemsLength (Some (JObj kvs)) =
     (case map_of kvs ''length'' of
        Some v \<Rightarrow> (case toNumber v of Some n \<Rightarrow> nat n | None \<Rightarrow> 0)
      | None \<Rightarrow> 0)"
| "jsonLoopItemsLength v = 0"

fun jsonLengthIsPositive :: "json \<Rightarrow> bool option" where
  "jsonLengthIsPositive JNull = None"
| "jsonLengthIsPositive (JArr xs) = Some (xs \<noteq> [])"
| "jsonLengthIsPositive (JStr s) = Some (s \<noteq> [])"
| "jsonLengthIsPositive (JObj kvs) =
     Some (case map_of kvs ''length'' of
             Some v \<Rightarrow> (case toNumber v of Some n \<Rightarrow> n > 0 | None \<Rightarrow> False)
           | None \<Rightarrow> False)"
| "jsonLengthIsPositive v = Some False"

text \<open>
  \<open>jsonCompare l r\<close>: the sign of the comparison of two values, as texts when both are
  texts (or arrays or objects, which convert to texts) and as numbers otherwise; \<open>None\<close>
  when the operands cannot be compared (any ordering test is then false).
\<close>

fun isTextual :: "json \<Rightarrow> bool" where
  "isTextual (JStr s) = True"
| "isTextual (JArr xs) = True"
| "isTextual (JObj kvs) = True"
| "isTextual v = False"

definition jsonCompare :: "json \<Rightarrow> json option \<Rightarrow> int option" where
  "jsonCompare l r =
     (case r of
        None \<Rightarrow> None
      | Some rv \<Rightarrow>
          if isTextual l \<and> isTextual rv
          then Some (compareStrings (jsonToString l) (jsonToString rv))
          else (case (toNumber l, toNumber rv) of
                  (Some a, Some b) \<Rightarrow> Some (if a < b then - 1 else if a = b then 0 else 1)
                | _ \<Rightarrow> None))"

text \<open>
  \<^verbatim>\<open>a.includes(b)\<close>: on an array the search for an item equal to \<open>b\<close>, on a string
  the search for the text of \<open>b\<close>; on any other value the call throws.
\<close>

fun jsonIncludes :: "json option \<Rightarrow> json option \<Rightarrow> bool option" where
  "jsonIncludes (Some (JArr xs)) (Some v) = Some (isPrimitive v \<and> v \<in> set xs)"
| "jsonIncludes (Some (JArr xs)) None = Some False"
| "jsonIncludes (Some (JStr s)) (Some v) = Some (includes_str s (jsonToString v))"
| "jsonIncludes (Some (JStr s)) None = Some (includes_str s ''undefined'')"
| "jsonIncludes a v = None"

definition jsonRuntime :: "json runtime" where
  "jsonRuntime =
     \<lparr>objectPath_get = jsonGet,
      loopItemsLength = jsonLoopItemsLength,
      isTruthy = jsonTruthy,
      localeCompare = collate,
      jsonClone = Some,
      lengthIsZero = jsonLengthIsZero,
      lengthIsPositive = jsonLengthIsPositive,
      lowerIfString = jsonLower,
      strictEquals = jsonStrictEquals,
      lessThan = (\<lambda>l r. case jsonCompare l r of Some c \<Rightarrow> c < 0 | None \<Rightarrow> False),
      lessEq = (\<lambda>l r. case jsonCompare l r of Some c \<Rightarrow> c \<le> 0 | None \<Rightarrow> False),
      greaterThan = (\<lambda>l r. case jsonCompare l r of Some c \<Rightarrow> c > 0 | None \<Rightarrow> False),
      greaterEq = (\<lambda>l r. case jsonCompare l r of Some c \<Rightarrow> c \<ge> 0 | None \<Rightarrow> False),
      includesOp = jsonIncludes\<rparr>"

text \<open>A clock that stands still: every reading is 0.\<close>

definition stillClock :: clock where
  "stillClock = \<lparr>dateReading = (\<lambda>i e. 0), startReading = 0, leafReading = (\<lambda>i k. 0)\<rparr>"

definition defaultOptions :: options where
  "defaultOptions = \<lparr>optContextLimit = None, optTimeLimit = None, optReturnAllContexts = None\<rparr>"

definition mkRule :: "string \<Rightarrow> 'v condition list \<Rightarrow> 'v rule" where
  "mkRule rid conds =
     \<lparr>ruleId = rid, ruleType = None, description = None, initialDate = None, endDate = None,
      conditions = conds\<rparr>"

section \<open>Facts about the engine\<close>

subsection \<open>What discovery and instantiation leave unchanged\<close>

text \<open>
  Discovery and path instantiation rewrite the two path fields of a condition and
  nothing else: the operator, the comparison value and whether a comparison path is set
  stay as they are.
\<close>

definition sameShape :: "'v condition \<Rightarrow> 'v condition \<Rightarrow> bool" where
  "sameShape c c' =
     (operator c' = operator c \<and> comparisonValue c' = comparisonValue c
      \<and> (comparisonRef c' = None \<longleftrightarrow> comparisonRef c = None))"

lemma sameShape_refl [simp]: "sameShape c c"
  by (simp add: sameShape_def)

lemma sameShape_trans: "sameShape a b \<Longrightarrow> sameShape b c \<Longrightarrow> sameShape a c"
  by (auto simp: sameShape_def)

lemma sameShapes_refl [simp]: "list_all2 sameShape cs cs"
  by (simp add: list_all2_refl)

lemma sameShapes_trans:
  "list_all2 sameShape as bs \<Longrightarrow> list_all2 sameShape bs cs \<Longrightarrow> list_all2 sameShape as cs"
  by (rule list_all2_trans [of sameShape sameShape sameShape]) (auto intro: sameShape_trans)

lemma annotateField_shape: "sameShape c (annotateField name k fld c)"
  by (cases fld) (auto simp: annotateField_def sameShape_def split: option.splits)

lemma annotateConditions_shape: "list_all2 sameShape cs (annotateConditions name k cs)"
  unfolding annotateConditions_def list_all2_map2
  by (rule list_all2_refl) (blast intro: sameShape_trans annotateField_shape)

lemma discoverStep_shape:
  "discoverStep conds loops refValue = (conds1, loops1, refValue1)
     \<Longrightarrow> list_all2 sameShape conds conds1"
  by (auto simp: discoverStep_def Let_def annotateConditions_shape split: prod.splits)

lemma discoverWhile_shape:
  assumes "discoverWhile conds loops refValue = Some r"
  shows "list_all2 sameShape conds (fst r)"
proof (rule discoverWhile.raw_induct
         [where P = "\<lambda>conds loops refValue r. list_all2 sameShape conds (fst r)", OF _ assms])
  fix f and conds :: "'a condition list" and loops refValue r
  assume ih: "\<And>c l v y. f c l v = Some y \<Longrightarrow> list_all2 sameShape c (fst y)"
    and body: "(if includes_str refValue ''[]'' then
                  (case discoverStep conds loops refValue of
                     (conds1, loops1, refValue1) \<Rightarrow> f conds1 loops1 refValue1)
                else Some (conds, loops)) = Some r"
  show "list_all2 sameShape conds (fst r)"
  proof (cases "includes_str refValue ''[]''")
    case False
    with body have "r = (conds, loops)" by simp
    then show ?thesis by (simp add: list_all2_refl)
  next
    case True
    obtain c1 l1 v1 where s: "discoverStep conds loops refValue = (c1, l1, v1)"
      by (cases "discoverStep conds loops refValue")
    with body True have "f c1 l1 v1 = Some r" by simp
    from ih [OF this] discoverStep_shape [OF s] show ?thesis
      by (rule sameShapes_trans [rotated])
  qed
qed

lemma processField_shape:
  "processField i fld st = Some st' \<Longrightarrow> list_all2 sameShape (fst st) (fst st')"
  by (auto simp: processField_def split: option.splits if_splits dest: discoverWhile_shape)

lemma forEachCondition_shape:
  "forEachCondition ks st = Some st' \<Longrightarrow> list_all2 sameShape (fst st) (fst st')"
proof (induction ks arbitrary: st)
  case Nil
  then show ?case by simp
next
  case (Cons i ks)
  from Cons.prems obtain st1 st2 where
    s: "processField i FieldRef st = Some st1" "processField i FieldComparisonRef st1 = Some st2"
       "forEachCondition ks st2 = Some st'"
    by (auto split: option.splits)
  from Cons.IH [OF s(3)] processField_shape [OF s(1)] processField_shape [OF s(2)]
  show ?case by (blast intro: sameShapes_trans)
qed

lemma processConditionsForLoops_shape:
  "processConditionsForLoops conds loops = Some r \<Longrightarrow> list_all2 sameShape conds (fst r)"
  using forEachCondition_shape [of "[0..<length conds]" "(conds, loops)" r]
  by (simp add: processConditionsForLoops_def)

subsection \<open>Paths without a dollar sign\<close>

text \<open>
  When no path of a rule contains a dollar sign, no replacement text contains one and
  every replacement is literal. Each round of the scan of a field then removes one
  marker, so the scan ends.
\<close>

definition dollarFree :: "'v condition \<Rightarrow> bool" where
  "dollarFree c = (CHR ''$'' \<notin> set (ref c)
                   \<and> (case comparisonRef c of None \<Rightarrow> True | Some s \<Rightarrow> CHR ''$'' \<notin> set s))"

lemma replaceAllFrom_literal_set:
  "CHR ''$'' \<notin> set rep \<Longrightarrow> set (replaceAllFrom scanned s pat rep) \<subseteq> set s \<union> set rep"
proof (induction scanned s pat rep rule: replaceAllFrom.induct)
  case (1 scanned pat rep)
  then show ?case by (auto simp: expandReplacement_literal)
next
  case (2 scanned c s pat rep)
  have "set (drop (length pat - 1) s) \<subseteq> set s" by (rule set_drop_subset)
  with 2 show ?case by (auto simp: expandReplacement_literal)
qed

lemma replaceAll_dollar:
  "CHR ''$'' \<notin> set rep \<Longrightarrow> CHR ''$'' \<notin> set s \<Longrightarrow> CHR ''$'' \<notin> set (replaceAll s pat rep)"
  using replaceAllFrom_literal_set [of rep "[]" s pat] by (auto simp: replaceAll_def)

lemma replace_dollar:
  "CHR ''$'' \<notin> set rep \<Longrightarrow> CHR ''$'' \<notin> set s \<Longrightarrow> CHR ''$'' \<notin> set (replace s pat rep)"
  by (auto simp: replace_literal split: option.splits dest!: breakOn_SomeD)

lemma annotateField_dollar:
  "dollarFree c \<Longrightarrow> CHR ''$'' \<notin> set name \<Longrightarrow> CHR ''$'' \<notin> set k
     \<Longrightarrow> dollarFree (annotateField name k fld c)"
  by (cases fld)
     (auto simp: annotateField_def dollarFree_def replaceAll_dollar split: option.splits)

lemma annotateConditions_dollar:
  "\<forall>c\<in>set conds. dollarFree c \<Longrightarrow> CHR ''$'' \<notin> set name \<Longrightarrow> CHR ''$'' \<notin> set k
     \<Longrightarrow> \<forall>c\<in>set (annotateConditions name k conds). dollarFree c"
  by (simp add: annotateConditions_def annotateField_dollar)

text \<open>The number of characters after the first marker, plus one; 0 without a marker.\<close>

definition markerRest :: "string \<Rightarrow> nat" where
  "markerRest s = (case breakOn ''[]'' s of None \<Rightarrow> 0 | Some (b, a) \<Rightarrow> Suc (length a))"

lemma discoverStep_dollar:
  assumes inc: "includes_str refValue ''[]''" and d: "CHR ''$'' \<notin> set refValue"
    and s: "discoverStep conds loops refValue = (conds1, loops1, refValue1)"
  shows "CHR ''$'' \<notin> set refValue1" and "markerRest refValue1 < markerRest refValue"
    and "\<forall>c\<in>set conds. dollarFree c \<Longrightarrow> \<forall>c\<in>set conds1. dollarFree c"
proof -
  from inc obtain P a where br: "breakOn ''[]'' refValue = Some (P, a)"
    by (auto simp: includes_str_def)
  define name where "name = slice P (lastIndexOf P (CHR ''.'') + 1)"
  define k where "k = string_of_nat (length loops1 - 1)"
  from br have x: "extractLoopDetails refValue = (name, P)"
    by (simp add: extractLoopDetails_def split0_def Let_def name_def)
  from s x have r1: "refValue1 = replace refValue (name @ ''[]'') (name @ ''[@'' @ k @ '']'')"
    and c1: "conds1 = annotateConditions name k conds"
    by (auto simp: discoverStep_def Let_def k_def)
  have suf: "suffix name P" by (simp add: name_def slice_def suffix_drop)
  from breakOn_SomeD [OF br] d have "CHR ''$'' \<notin> set P" by auto
  with suf have dn: "CHR ''$'' \<notin> set name" by (auto simp: suffix_def)
  have dk: "CHR ''$'' \<notin> set k" unfolding k_def by (rule string_of_nat_no_dollar)
  have nk: "CHR ''['' \<notin> set k" unfolding k_def by (rule string_of_nat_no_bracket)
  from dn dk have "CHR ''$'' \<notin> set (name @ ''[@'' @ k @ '']'')" by simp
  from replace_dollar [OF this d] r1 show "CHR ''$'' \<notin> set refValue1" by simp
  from marker_step [OF br suf nk dn dk] r1
  have m: "breakOn ''[]'' refValue1 =
             (case breakOn ''[]'' a of None \<Rightarrow> None
              | Some (b', a') \<Rightarrow> Some (P @ ''[@'' @ k @ '']'' @ b', a'))" by simp
  show "markerRest refValue1 < markerRest refValue"
  proof (cases "breakOn ''[]'' a")
    case None
    with m br show ?thesis by (simp add: markerRest_def)
  next
    case (Some p)
    obtain b' a' where p: "p = (b', a')" by (cases p)
    from breakOn_after_shorter [of "''[]''" a b' a'] Some p have "length a' < length a" by simp
    with m Some p br show ?thesis by (simp add: markerRest_def)
  qed
  show "\<forall>c\<in>set conds1. dollarFree c" if "\<forall>c\<in>set conds. dollarFree c"
    unfolding c1 using that dn dk by (rule annotateConditions_dollar)
qed

lemma discoverWhile_returns:
  assumes "CHR ''$'' \<notin> set refValue" and "\<forall>c\<in>set conds. dollarFree c"
  shows "\<exists>r. discoverWhile conds loops refValue = Some r \<and> (\<forall>c\<in>set (fst r). dollarFree c)"
  using assms
proof (induction "markerRest refValue" arbitrary: conds loops refValue rule: less_induct)
  case less
  show ?case
  proof (cases "includes_str refValue ''[]''")
    case False
    with less.prems show ?thesis by (subst discoverWhile.simps) simp
  next
    case True
    obtain c1 l1 v1 where s: "discoverStep conds loops refValue = (c1, l1, v1)"
      by (cases "discoverStep conds loops refValue")
    note st = discoverStep_dollar [OF True less.prems(1) s]
    from less.hyps [OF st(2) st(1) st(3) [OF less.prems(2)]]
    obtain r where "discoverWhile c1 l1 v1 = Some r" "\<forall>c\<in>set (fst r). dollarFree c" by blast
    with True s show ?thesis by (subst discoverWhile.simps) simp
  qed
qed

lemma processField_returns:
  assumes "\<forall>c\<in>set (fst st). dollarFree c" and "i < length (fst st)"
  shows "\<exists>r. processField i fld st = Some r \<and> (\<forall>c\<in>set (fst r). dollarFree c)"
proof -
  from assms have d: "dollarFree (fst st ! i)" by simp
  show ?thesis
  proof (cases "getField (fst st ! i) fld")
    case None
    with assms show ?thesis by (simp add: processField_def)
  next
    case (Some refValue)
    with d have "CHR ''$'' \<notin> set refValue"
      by (cases fld) (auto simp: dollarFree_def)
    from discoverWhile_returns [OF this assms(1), of "snd st"] Some assms(1) show ?thesis
      by (cases st) (auto simp: processField_def)
  qed
qed

lemma forEachCondition_returns:
  assumes "\<forall>c\<in>set (fst st). dollarFree c" and "\<forall>i\<in>set ks. i < length (fst st)"
  shows "\<exists>r. forEachCondition ks st = Some r"
  using assms
proof (induction ks arbitrary: st)
  case Nil
  show ?case by simp
next
  case (Cons i ks)
  from Cons.prems have i: "i < length (fst st)" by simp
  from processField_returns [OF Cons.prems(1) i] obtain st1 where
    1: "processField i FieldRef st = Some st1" "\<forall>c\<in>set (fst st1). dollarFree c" by blast
  from processField_shape [OF 1(1)] have l1: "length (fst st1) = length (fst st)"
    by (simp add: list_all2_lengthD)
  with i have "i < length (fst st1)" by simp
  from processField_returns [OF 1(2) this] obtain st2 where
    2: "processField i FieldComparisonRef st1 = Some st2" "\<forall>c\<in>set (fst st2). dollarFree c"
    by blast
  from processField_shape [OF 2(1)] l1 have "length (fst st2) = length (fst st)"
    by (simp add: list_all2_lengthD)
  with Cons.prems(2) have "\<forall>i\<in>set ks. i < length (fst st2)" by simp
  from Cons.IH [OF 2(2) this] 1(1) 2(1) show ?case by simp
qed

lemma processConditionsForLoops_returns:
  "\<forall>c\<in>set conds. dollarFree c \<Longrightarrow> \<exists>r. processConditionsForLoops conds loops = Some r"
  unfolding processConditionsForLoops_def by (rule forEachCondition_returns) simp_all

subsection \<open>A scan that never ends\<close>

text \<open>
  A path that starts with \<^verbatim>\<open>$&[]\<close> names an array \<^verbatim>\<open>$&\<close>. The replacement text of
  the scan is then \<^verbatim>\<open>$&[@k]\<close>, in which the runtime expands \<^verbatim>\<open>$&\<close> to the matched
  text \<^verbatim>\<open>$&[]\<close>: the marker comes back in every round, and neither the scan, nor the
  block of the rule, nor the call ever ends. (Strings have no bound on their length
  here. In the runtime the paths grow by four characters in every round, and the scan
  goes on until a text exceeds the greatest length of a string.)
\<close>

lemma discoverStep_ampersand:
  "\<exists>c1 l1 k. discoverStep conds loops (''$&[]'' @ t) = (c1, l1, ''$&[]'' @ ''[@'' @ k @ '']'' @ t)"
proof -
  have e: "expandReplacement ''$&[]'' [] t (''$&'' @ ''[@'' @ string_of_nat n @ '']'')
             = ''$&[]'' @ ''[@'' @ string_of_nat n @ '']''" for n
    using expandReplacement_literal [of "''[@'' @ string_of_nat n @ '']''" "''$&[]''" "[]" t]
          string_of_nat_no_dollar [of n]
    by simp
  have r: "replace (''$&[]'' @ t) (''$&'' @ ''[]'') (''$&'' @ ''[@'' @ string_of_nat n @ '']'')
          = ''$&[]'' @ ''[@'' @ string_of_nat n @ '']'' @ t" for n
    using e [of n] by (simp add: replace_def)
  have x: "extractLoopDetails (''$&[]'' @ t) = (''$&'', ''$&'')"
    by (simp add: extractLoopDetails_def split0_def lastIndexOf_def slice_def Let_def)
  show ?thesis
    unfolding discoverStep_def x Let_def prod.case r by blast
qed

lemma discoverWhile_never_ends: "discoverWhile conds loops (''$&[]'' @ t) = None"
proof (rule ccontr)
  assume "discoverWhile conds loops (''$&[]'' @ t) \<noteq> None"
  then obtain r where r: "discoverWhile conds loops (''$&[]'' @ t) = Some r" by auto
  have "\<forall>t'. ''$&[]'' @ t \<noteq> ''$&[]'' @ t'"
  proof (rule discoverWhile.raw_induct
           [where P = "\<lambda>conds loops refValue r. \<forall>t. refValue \<noteq> ''$&[]'' @ t", OF _ r])
    fix f and conds :: "'a condition list" and loops refValue r
    assume ih: "\<And>c l v y. f c l v = Some y \<Longrightarrow> \<forall>t. v \<noteq> ''$&[]'' @ t"
      and body: "(if includes_str refValue ''[]'' then
                    (case discoverStep conds loops refValue of
                       (conds1, loops1, refValue1) \<Rightarrow> f conds1 loops1 refValue1)
                  else Some (conds, loops)) = Some r"
    show "\<forall>t. refValue \<noteq> ''$&[]'' @ t"
    proof (intro allI notI)
      fix t assume v: "refValue = ''$&[]'' @ t"
      then have inc: "includes_str refValue ''[]''" by (simp add: includes_str_def)
      obtain c1 l1 v1 where s: "discoverStep conds loops refValue = (c1, l1, v1)"
        by (cases "discoverStep conds loops refValue")
      with discoverStep_ampersand [of conds loops t] v
      obtain k where "v1 = ''$&[]'' @ (''[@'' @ k @ '']'' @ t)" by auto
      moreover from body inc s have "f c1 l1 v1 = Some r" by simp
      ultimately show False using ih by blast
    qed
  qed
  then show False by simp
qed

lemma validateRules_never_returns:
  "validateRules rt stillClock d
     [mkRule rid [\<lparr>ref = ''$&[].x'', operator = oper, comparisonValue = v,
                   comparisonRef = None\<rparr>]] contextObj opts = None"
proof -
  have "discoverWhile conds loops ''$&[].x'' = None" for conds :: "'a condition list" and loops
    using discoverWhile_never_ends [of conds loops "''.x''"] by simp
  then show ?thesis
    by (simp add: validateRules_def filterRulesByDate_def withinDates_def copyRule_def
                  copyCondition_def mkRule_def tryRule_def processConditionsForLoops_def
                  processField_def Let_def stillClock_def split: option.splits)
qed

subsection \<open>The entries of one rule\<close>

text \<open>
  The entries that one rule adds to the result, whatever the results before it are:
  those that its block pushes or, when the block throws, the entry of the \<^verbatim>\<open>catch\<close>
  block. The result of a call is the concatenation of the entries of the rules that
  passed the date filter.
\<close>

definition ruleEntries ::
  "'v runtime \<Rightarrow> (nat \<Rightarrow> int) \<Rightarrow> 'v \<Rightarrow> 'v option \<Rightarrow> int \<Rightarrow> int \<Rightarrow> bool \<Rightarrow> int
     \<Rightarrow> 'v workingRule \<Rightarrow> 'v ruleResult list option" where
  "ruleEntries rt now d contextObj L tlim rac st rule =
     (case tryRule rt now d contextObj L tlim rac st rule [] of
        None \<Rightarrow> None
      | Some (Inr (rule', results')) \<Rightarrow> Some results'
      | Some (Inl (msg, rule')) \<Rightarrow> Some [errorResult rule' msg])"

definition supportedOperators :: "string list" where
  "supportedOperators =
     [''exists'', ''does_not_exists'', ''is_empty'', ''is_not_empty'', ''='', ''<>'', ''<'',
      ''<='', ''>'', ''>='', ''contains'', ''does_not_contains'', ''is_contained'', ''in'',
      ''not_in'']"

lemma addRuleToResults_append:
  "addRuleToResults rule results = results @ addRuleToResults rule []"
  by (simp add: addRuleToResults_def split: option.splits)

text \<open>
  The block of a rule, once discovery has returned and the contexts are generated, in
  one equation.
\<close>

definition evaluated ::
  "'v runtime \<Rightarrow> 'v \<Rightarrow> 'v option \<Rightarrow> bool \<Rightarrow> 'v workingRule \<Rightarrow> loop list \<Rightarrow> nat list list
     \<Rightarrow> string + 'v workingRule" where
  "evaluated rt d contextObj rac rule3 loops tuples =
     (if tuples = []
      then (case evaluateSimpleConditions rt d (conditions rule3) contextObj of
              Inl e \<Rightarrow> Inl e
            | Inr r \<Rightarrow> Inr (rule3\<lparr>conditionsResult := Some r\<rparr>))
      else (case forContexts rt d rule3 loops contextObj rac tuples [] of
              Inl e \<Rightarrow> Inl e
            | Inr r \<Rightarrow> Inr (rule3\<lparr>conditionResultContext := Some r\<rparr>)))"

definition discovered ::
  "'v workingRule \<Rightarrow> 'v condition list \<Rightarrow> nat list list \<Rightarrow> contextCounter \<Rightarrow> 'v workingRule" where
  "discovered rule conds tuples cc =
     rule\<lparr>conditionResultContext := Some [], conditions := conds, contexts := Some tuples,
          contextLimitReached := Some (limitReached cc),
          timeLimitReached := Some (timeReached cc)\<rparr>"

lemma tryRule_unfold:
  assumes "processConditionsForLoops (conditions rule) [] = Some (conds, loops0)"
    and "explodeContexts rt now d (sortLoopsByPath rt loops0) [] L st tlim
           \<lparr>count = 0, limitReached = False, timeReached = False\<rparr> = (tuples, cc)"
  shows "tryRule rt now d contextObj L tlim rac st rule results
           = Some (case evaluated rt d contextObj rac (discovered rule conds tuples cc)
                          (sortLoopsByPath rt loops0) tuples of
                     Inl e \<Rightarrow> Inl (e, discovered rule conds tuples cc)
                   | Inr rule4 \<Rightarrow>
                       Inr (rule4,
                            results @ addRuleToResults rule4 []
                            @ (if limitReached cc \<or> timeReached cc
                               then [contextLimitEntry rule4 L tlim] else [])))"
  using assms addRuleToResults_append [of _ results]
  by (auto simp: tryRule_def Let_def validateArrayReferences_def evaluated_def discovered_def
                 evaluateConditionsInContexts_def
           split: sum.splits)

lemma tryRule_results:
  "tryRule rt now d contextObj L tlim rac st rule results
     = map_option (\<lambda>out. case out of Inl x \<Rightarrow> Inl x
                          | Inr (rule', es) \<Rightarrow> Inr (rule', results @ es))
         (tryRule rt now d contextObj L tlim rac st rule [])"
proof (cases "processConditionsForLoops (conditions rule) []")
  case None
  then show ?thesis by (simp add: tryRule_def)
next
  case (Some p)
  obtain conds loops0 where p: "p = (conds, loops0)" by (cases p)
  obtain tuples cc where e:
    "explodeContexts rt now d (sortLoopsByPath rt loops0) [] L st tlim
       \<lparr>count = 0, limitReached = False, timeReached = False\<rparr> = (tuples, cc)"
    by (cases "explodeContexts rt now d (sortLoopsByPath rt loops0) [] L st tlim
       \<lparr>count = 0, limitReached = False, timeReached = False\<rparr>")
  from Some p have d: "processConditionsForLoops (conditions rule) [] = Some (conds, loops0)"
    by simp
  show ?thesis
    by (simp add: tryRule_unfold [OF d e] split: sum.splits)
qed

lemma forEachRule_entries:
  "forEachRule rt leaf d contextObj L tlim rac st i rules results
     = map_option (\<lambda>es. results @ concat es)
         (those (map (\<lambda>(k, r). ruleEntries rt (leaf k) d contextObj L tlim rac st r)
                   (enumerate i rules)))"
proof (induction rules arbitrary: i results)
  case Nil
  show ?case by simp
next
  case (Cons r rules)
  have step: "forEachRule rt leaf d contextObj L tlim rac st i (r # rules) results
                = (case ruleEntries rt (leaf i) d contextObj L tlim rac st r of
                     None \<Rightarrow> None
                   | Some es \<Rightarrow>
                       forEachRule rt leaf d contextObj L tlim rac st (Suc i) rules (results @ es))"
    by (subst forEachRule.simps, subst tryRule_results)
       (simp add: ruleEntries_def split: sum.splits option.splits)
  show ?case
    unfolding step
    by (cases "ruleEntries rt (leaf i) d contextObj L tlim rac st r")
       (simp_all add: Cons.IH option.map_comp comp_def split: option.splits)
qed

lemma validateRules_entries:
  "validateRules rt clk d rules contextObj opts
     = map_option concat
         (those (map (\<lambda>(k, r). ruleEntries rt (leafReading clk k) d contextObj
                                (case optContextLimit opts of Some l \<Rightarrow> l | None \<Rightarrow> 10000)
                                (case optTimeLimit opts of Some t \<Rightarrow> t | None \<Rightarrow> 200)
                                (case optReturnAllContexts opts of Some b \<Rightarrow> b | None \<Rightarrow> True)
                                (startReading clk) r)
                   (enumerate 0 (filterRulesByDate clk (map (copyRule rt) rules)))))"
  unfolding validateRules_def Let_def by (subst forEachRule_entries) simp

subsection \<open>Conditions that pass and conditions that throw\<close>

text \<open>
  A condition passes when its evaluation throws nothing and its test is true. A
  conjunction meets an error when it reaches a condition whose evaluation throws, which
  it does when every condition before that one passes. The contexts of a rule throw when
  the conjunction of one of them meets an error and the loop over the contexts reaches
  it: no context before it throws and, when only the first passing context is wanted, no
  context before it passes.
\<close>

definition passes :: "'v runtime \<Rightarrow> 'v \<Rightarrow> 'v option \<Rightarrow> 'v condition \<Rightarrow> bool" where
  "passes rt d contextObj c =
     (case tryCondition rt d contextObj c of Some (l, r, test) \<Rightarrow> test | None \<Rightarrow> False)"

fun meetsError :: "'v runtime \<Rightarrow> 'v \<Rightarrow> 'v option \<Rightarrow> 'v condition list \<Rightarrow> bool" where
  "meetsError rt d contextObj [] = False"
| "meetsError rt d contextObj (c # cs) =
     (case tryCondition rt d contextObj c of
        None \<Rightarrow> True
      | Some (l, r, test) \<Rightarrow> test \<and> meetsError rt d contextObj cs)"

definition inContext :: "'v condition list \<Rightarrow> loop list \<Rightarrow> nat list \<Rightarrow> 'v condition list" where
  "inContext conds loops t = map (\<lambda>c. replaceContextValues c loops t) conds"

fun contextsThrow ::
  "'v runtime \<Rightarrow> 'v \<Rightarrow> 'v option \<Rightarrow> bool \<Rightarrow> 'v condition list \<Rightarrow> loop list \<Rightarrow> nat list list
     \<Rightarrow> bool" where
  "contextsThrow rt d contextObj rac conds loops [] = False"
| "contextsThrow rt d contextObj rac conds loops (t # ts) =
     (meetsError rt d contextObj (inContext conds loops t)
      \<or> (\<not> (list_all (passes rt d contextObj) (inContext conds loops t) \<and> \<not> rac)
         \<and> contextsThrow rt d contextObj rac conds loops ts))"

definition ruleThrows ::
  "'v runtime \<Rightarrow> 'v \<Rightarrow> 'v option \<Rightarrow> bool \<Rightarrow> 'v condition list \<Rightarrow> loop list \<Rightarrow> nat list list
     \<Rightarrow> bool" where
  "ruleThrows rt d contextObj rac conds loops tuples =
     (if tuples = [] then meetsError rt d contextObj conds
      else contextsThrow rt d contextObj rac conds loops tuples)"

definition conflicting :: "'v condition \<Rightarrow> bool" where
  "conflicting c = (comparisonValue c \<noteq> None \<and> comparisonRef c \<noteq> None)"

lemma tryCondition_None:
  "tryCondition rt d contextObj c = None \<longleftrightarrow>
     conflicting c
     \<or> isl (testCondition rt (getValueWithContext rt d (ref c) contextObj)
               (case comparisonRef c of
                  Some p \<Rightarrow> getValueWithContext rt d p contextObj
                | None \<Rightarrow> comparisonValue c)
               (operator c))"
  by (auto simp: tryCondition_def conflicting_def Let_def split: sum.splits)

lemma testCondition_unsupported:
  "oper \<notin> set supportedOperators
     \<Longrightarrow> testCondition rt (Some lv) rv oper
           = Inl (''Failed to test condition with operator ['' @ oper @ ''].'')"
  by (simp add: supportedOperators_def testCondition_def Let_def)

lemma tryCondition_unsupported:
  assumes "operator c \<notin> set supportedOperators"
    and "getValueWithContext rt d (ref c) contextObj \<noteq> None"
  shows "tryCondition rt d contextObj c = None"
proof -
  from assms(2) obtain lv where "getValueWithContext rt d (ref c) contextObj = Some lv" by auto
  with testCondition_unsupported [OF assms(1), of rt lv] show ?thesis
    by (simp add: tryCondition_None)
qed

lemma meetsError_append:
  "meetsError rt d contextObj (pre @ cs)
     = (meetsError rt d contextObj pre
        \<or> (list_all (passes rt d contextObj) pre \<and> meetsError rt d contextObj cs))"
  by (induction pre) (auto simp: passes_def split: option.splits)

lemma meetsError_reached:
  assumes "list_all (passes rt d contextObj) pre" and "tryCondition rt d contextObj c = None"
  shows "meetsError rt d contextObj (pre @ c # post)"
  using assms by (simp add: meetsError_append)

lemma meetsError_iff:
  "meetsError rt d contextObj cs \<longleftrightarrow>
     (\<exists>pre c post. cs = pre @ c # post \<and> list_all (passes rt d contextObj) pre
                   \<and> tryCondition rt d contextObj c = None)"
proof (induction cs)
  case Nil
  show ?case by simp
next
  case (Cons x cs)
  show ?case
  proof (cases "tryCondition rt d contextObj x")
    case None
    then have "x # cs = [] @ x # cs \<and> list_all (passes rt d contextObj) []
                 \<and> tryCondition rt d contextObj x = None" by simp
    then have "\<exists>pre c post. x # cs = pre @ c # post \<and> list_all (passes rt d contextObj) pre
                   \<and> tryCondition rt d contextObj c = None" by blast
    with None show ?thesis by simp
  next
    case (Some p)
    obtain l r test where p: "p = (l, r, test)" by (cases p)
    show ?thesis
    proof
      assume "meetsError rt d contextObj (x # cs)"
      with Some p have t: test and "meetsError rt d contextObj cs" by simp_all
      with Cons.IH obtain pre c post where
        "cs = pre @ c # post" "list_all (passes rt d contextObj) pre"
        "tryCondition rt d contextObj c = None" by blast
      with t Some p have "x # cs = (x # pre) @ c # post
          \<and> list_all (passes rt d contextObj) (x # pre) \<and> tryCondition rt d contextObj c = None"
        by (simp add: passes_def)
      then show "\<exists>pre c post. x # cs = pre @ c # post \<and> list_all (passes rt d contextObj) pre
                   \<and> tryCondition rt d contextObj c = None" by blast
    next
      assume "\<exists>pre c post. x # cs = pre @ c # post \<and> list_all (passes rt d contextObj) pre
                   \<and> tryCondition rt d contextObj c = None"
      then obtain pre c post where e: "x # cs = pre @ c # post"
        "list_all (passes rt d contextObj) pre" "tryCondition rt d contextObj c = None" by blast
      from meetsError_reached [OF e(2,3), of post] e(1)
      show "meetsError rt d contextObj (x # cs)" by simp
    qed
  qed
qed

lemma reduceInContext_isl:
  "isl (reduceInContext rt d contextObj rid cs acc)
     = (result acc \<and> meetsError rt d contextObj cs)"
  by (induction cs arbitrary: acc) (auto split: option.splits)

lemma reduceInContext_message:
  "reduceInContext rt d contextObj rid cs acc = Inl msg
     \<Longrightarrow> msg = ''Failed to evaluate conditions in one context in rule ['' @ rid @ ''].''"
  by (induction cs arbitrary: acc) (auto split: option.splits if_splits)

lemma reduceInContext_result:
  "reduceInContext rt d contextObj rid cs acc = Inr ev
     \<Longrightarrow> result ev = (result acc \<and> list_all (passes rt d contextObj) cs)"
proof (induction cs arbitrary: acc)
  case Nil
  then show ?case by simp
next
  case (Cons c cs)
  show ?case
  proof (cases "result acc")
    case False
    with Cons.prems Cons.IH [of "\<lparr>result = False, conditionValues = conditionValues acc\<rparr>"]
    show ?thesis by simp
  next
    case True
    with Cons.prems obtain l r test where t: "tryCondition rt d contextObj c = Some (l, r, test)"
      by (auto split: option.splits)
    show ?thesis
    proof (cases test)
      case True
      with t \<open>result acc\<close> Cons.prems
        Cons.IH [of "\<lparr>result = True,
                      conditionValues = conditionValues acc @ [mkDetail c l r]\<rparr>"]
      show ?thesis by (simp add: passes_def)
    next
      case False
      with t \<open>result acc\<close> Cons.prems
        Cons.IH [of "\<lparr>result = False, conditionValues = conditionValues acc\<rparr>"]
      show ?thesis by (simp add: passes_def)
    qed
  qed
qed

lemma reduceSimple_isl:
  "isl (reduceSimple rt d contextObj cs acc) = (response acc \<and> meetsError rt d contextObj cs)"
  by (induction cs arbitrary: acc) (auto split: option.splits)

lemma reduceSimple_message:
  "reduceSimple rt d contextObj cs acc = Inl msg
     \<Longrightarrow> msg = ''Failed to evaluate conditions in one context.''"
  by (induction cs arbitrary: acc) (auto split: option.splits if_splits)

lemma evaluateContext_isl:
  "isl (evaluateContext rt d rule loops contextObj t)
     = meetsError rt d contextObj (inContext (conditions rule) loops t)"
  by (simp add: evaluateContext_def reduceInContext_isl inContext_def)

lemma evaluateContext_result:
  "evaluateContext rt d rule loops contextObj t = Inr ev
     \<Longrightarrow> result ev = list_all (passes rt d contextObj) (inContext (conditions rule) loops t)"
  by (auto simp: evaluateContext_def inContext_def dest: reduceInContext_result)

lemma evaluateContext_message:
  "evaluateContext rt d rule loops contextObj t = Inl msg
     \<Longrightarrow> msg = ''Failed to evaluate conditions in one context in rule ['' @ ruleId rule @ ''].''"
  by (auto simp: evaluateContext_def dest: reduceInContext_message)

lemma forContexts_isl:
  "isl (forContexts rt d rule loops contextObj rac ts acc)
     = contextsThrow rt d contextObj rac (conditions rule) loops ts"
proof (induction ts arbitrary: acc)
  case Nil
  show ?case by simp
next
  case (Cons t ts)
  show ?case
  proof (cases "evaluateContext rt d rule loops contextObj t")
    case (Inl e)
    with evaluateContext_isl [of rt d rule loops contextObj t] show ?thesis by simp
  next
    case (Inr ev)
    with evaluateContext_isl [of rt d rule loops contextObj t]
         evaluateContext_result [OF Inr] Cons.IH
    show ?thesis by auto
  qed
qed

lemma forContexts_message:
  "forContexts rt d rule loops contextObj rac ts acc = Inl msg
     \<Longrightarrow> msg = ''Failed to evaluate conditions in one context in rule ['' @ ruleId rule @ ''].''"
  by (induction ts arbitrary: acc)
     (auto split: sum.splits if_splits dest: evaluateContext_message)

lemma replaceContextValues_fold_None:
  "(snd (fold (\<lambda>loopIndex (adjustedRef, adjustedComparisonRef).
                (replaceAll adjustedRef (''[@'' @ string_of_nat loopIndex @ '']'')
                   (''.'' @ contextAt tuple loopIndex),
                 (case adjustedComparisonRef of
                    None \<Rightarrow> None
                  | Some s \<Rightarrow>
                      if s \<noteq> []
                      then Some (replaceAll s (''[@'' @ string_of_nat loopIndex @ '']'')
                                   (''.'' @ contextAt tuple loopIndex))
                      else Some s)))
          ks (a, b)) = None) \<longleftrightarrow> b = None"
  by (induction ks arbitrary: a b) (auto split: option.splits)

lemma replaceContextValues_shape: "sameShape c (replaceContextValues c loops tuple)"
  using replaceContextValues_fold_None [of tuple "[0..<length loops]" "ref c" "comparisonRef c"]
  by (auto simp: replaceContextValues_def sameShape_def split: prod.splits)

lemma sameShape_conflicting: "sameShape c c' \<Longrightarrow> conflicting c \<Longrightarrow> conflicting c'"
  by (auto simp: sameShape_def conflicting_def)

lemma tryCondition_conflicting: "conflicting c \<Longrightarrow> tryCondition rt d contextObj c = None"
  by (simp add: tryCondition_None)

lemma discovered_fields [simp]:
  "conditions (discovered rule conds tuples cc) = conds"
  "ruleId (discovered rule conds tuples cc) = ruleId rule"
  "ruleType (discovered rule conds tuples cc) = ruleType rule"
  "description (discovered rule conds tuples cc) = description rule"
  by (simp_all add: discovered_def)

lemma evaluated_isl:
  "isl (evaluated rt d contextObj rac (discovered rule conds tuples cc) loops tuples)
     = ruleThrows rt d contextObj rac conds loops tuples"
  using reduceSimple_isl [of rt d contextObj conds "\<lparr>response = True, items = []\<rparr>"]
        forContexts_isl [of rt d "discovered rule conds tuples cc" loops contextObj rac tuples "[]"]
  by (auto simp: evaluated_def ruleThrows_def evaluateSimpleConditions_def split: sum.splits)

lemma evaluated_message:
  "evaluated rt d contextObj rac (discovered rule conds tuples cc) loops tuples = Inl msg
     \<Longrightarrow> msg = (if tuples = [] then ''Failed to evaluate conditions in one context.''
                else ''Failed to evaluate conditions in one context in rule ['' @ ruleId rule
                     @ ''].'')"
  by (auto simp: evaluated_def evaluateSimpleConditions_def
           split: sum.splits if_splits dest: reduceSimple_message forContexts_message)

lemma tryRule_throws:
  assumes p: "processConditionsForLoops (conditions rule) [] = Some (conds, loops0)"
    and e: "explodeContexts rt now d (sortLoopsByPath rt loops0) [] L st tlim
              \<lparr>count = 0, limitReached = False, timeReached = False\<rparr> = (tuples, cc)"
  shows "\<exists>out. tryRule rt now d contextObj L tlim rac st rule results = Some out
           \<and> (isl out \<longleftrightarrow> ruleThrows rt d contextObj rac conds (sortLoopsByPath rt loops0) tuples)
           \<and> (\<forall>msg r'. out = Inl (msg, r') \<longrightarrow>
                 r' = discovered rule conds tuples cc
                 \<and> msg = (if tuples = [] then ''Failed to evaluate conditions in one context.''
                          else ''Failed to evaluate conditions in one context in rule [''
                               @ ruleId rule @ ''].''))"
proof -
  let ?ev = "evaluated rt d contextObj rac (discovered rule conds tuples cc)
               (sortLoopsByPath rt loops0) tuples"
  show ?thesis
  proof (cases ?ev)
    case (Inl msg)
    with evaluated_isl [of rt d contextObj rac rule conds tuples cc "sortLoopsByPath rt loops0"]
         evaluated_message [OF Inl]
    show ?thesis by (simp add: tryRule_unfold [OF p e])
  next
    case (Inr rule4)
    with evaluated_isl [of rt d contextObj rac rule conds tuples cc "sortLoopsByPath rt loops0"]
    show ?thesis by (simp add: tryRule_unfold [OF p e])
  qed
qed

lemma tryRule_conflicting:
  assumes c: "conditions rule = c # cs" "conflicting c"
    and p: "processConditionsForLoops (conditions rule) [] \<noteq> None"
  shows "\<exists>msg rule'. tryRule rt now d contextObj L tlim rac st rule results = Some (Inl (msg, rule'))
                       \<and> ruleId rule' = ruleId rule"
proof -
  from p obtain conds loops0 where
    p': "processConditionsForLoops (conditions rule) [] = Some (conds, loops0)" by auto
  from processConditionsForLoops_shape [OF p'] c(1)
  have "list_all2 sameShape (c # cs) conds" by simp
  then obtain c' cs' where c': "conds = c' # cs'" "sameShape c c'"
    by (auto simp: list_all2_Cons1)
  from sameShape_conflicting [OF c'(2) c(2)] have cf: "conflicting c'" .
  obtain tuples cc where e:
    "explodeContexts rt now d (sortLoopsByPath rt loops0) [] L st tlim
       \<lparr>count = 0, limitReached = False, timeReached = False\<rparr> = (tuples, cc)"
    by (cases "explodeContexts rt now d (sortLoopsByPath rt loops0) [] L st tlim
       \<lparr>count = 0, limitReached = False, timeReached = False\<rparr>")
  have "ruleThrows rt d contextObj rac conds (sortLoopsByPath rt loops0) tuples"
  proof (cases tuples)
    case Nil
    with c'(1) cf show ?thesis by (simp add: ruleThrows_def tryCondition_conflicting)
  next
    case (Cons t ts)
    have "conflicting (replaceContextValues c' (sortLoopsByPath rt loops0) t)"
      using cf by (rule sameShape_conflicting [OF replaceContextValues_shape])
    with Cons c'(1) show ?thesis
      by (simp add: ruleThrows_def inContext_def tryCondition_conflicting)
  qed
  with tryRule_throws [OF p' e, of contextObj rac results] show ?thesis
    by (auto simp: isl_def)
qed

lemma tryRule_returns:
  "\<forall>c\<in>set (conditions rule). dollarFree c
     \<Longrightarrow> tryRule rt now d contextObj L tlim rac st rule results \<noteq> None"
proof -
  assume "\<forall>c\<in>set (conditions rule). dollarFree c"
  from processConditionsForLoops_returns [OF this, of "[]"]
  obtain r where "processConditionsForLoops (conditions rule) [] = Some r" by blast
  then show ?thesis by (cases r) (simp add: tryRule_def)
qed

subsection \<open>The contexts that are reported\<close>

text \<open>
  The entry of a rule with passing contexts, and what the loop over the contexts returns
  under each value of the flag \<^verbatim>\<open>returnAllContexts\<close>.
\<close>

definition conditionalEntry :: "'v workingRule \<Rightarrow> 'v evaluation list \<Rightarrow> 'v ruleResult" where
  "conditionalEntry rule evs =
     \<lparr>resultId = ruleId rule, resultType = ruleType rule, message = description rule,
      resultConditions = Some (PerContext evs), keyword = ''conditional'', errors = None\<rparr>"

lemma evaluateContext_cong:
  "conditions r1 = conditions r2 \<Longrightarrow> ruleId r1 = ruleId r2
     \<Longrightarrow> evaluateContext rt d r1 loops contextObj = evaluateContext rt d r2 loops contextObj"
  by (rule ext) (simp add: evaluateContext_def)

lemma forContexts_cong:
  "conditions r1 = conditions r2 \<Longrightarrow> ruleId r1 = ruleId r2
     \<Longrightarrow> forContexts rt d r1 loops contextObj rac cs acc
         = forContexts rt d r2 loops contextObj rac cs acc"
  by (induction cs arbitrary: acc)
     (auto simp: evaluateContext_cong [of r1 r2] split: sum.splits)

lemma forContexts_all:
  "map (evaluateContext rt d rule loops contextObj) cs = map Inr es
     \<Longrightarrow> forContexts rt d rule loops contextObj True cs acc = Inr (acc @ filter result es)"
proof (induction cs arbitrary: es acc)
  case Nil
  then show ?case by simp
next
  case (Cons c cs)
  then obtain e es' where es: "es = e # es'"
      "evaluateContext rt d rule loops contextObj c = Inr e"
      "map (evaluateContext rt d rule loops contextObj) cs = map Inr es'"
    by (cases es) auto
  from Cons.IH [OF es(3)] es(1,2) show ?case by simp
qed

lemma forContexts_first:
  assumes "map (evaluateContext rt d rule loops contextObj) pre = map Inr es"
    and "\<forall>e\<in>set es. \<not> result e"
    and "evaluateContext rt d rule loops contextObj c = Inr ev" and "result ev"
  shows "forContexts rt d rule loops contextObj False (pre @ c # post) acc = Inr (acc @ [ev])"
  using assms(1,2)
proof (induction pre arbitrary: es)
  case Nil
  with assms(3,4) show ?case by simp
next
  case (Cons x pre)
  then obtain e es' where es: "es = e # es'"
      "evaluateContext rt d rule loops contextObj x = Inr e"
      "map (evaluateContext rt d rule loops contextObj) pre = map Inr es'"
    by (cases es) auto
  with Cons.prems(2) have "\<not> result e" "\<forall>e\<in>set es'. \<not> result e" by auto
  with Cons.IH [OF es(3)] es(2) show ?case by simp
qed

lemma forContexts_at_most_one:
  "forContexts rt d rule loops contextObj False cs acc = Inr rs \<Longrightarrow> length rs \<le> Suc (length acc)"
proof (induction cs)
  case Nil
  then show ?case by simp
next
  case (Cons c cs)
  then show ?case by (auto split: sum.splits if_splits)
qed

lemma tryRule_reported:
  assumes p: "processConditionsForLoops (conditions rule) [] = Some (conds, loops0)"
    and e: "explodeContexts rt now d (sortLoopsByPath rt loops0) [] L st tlim
              \<lparr>count = 0, limitReached = False, timeReached = False\<rparr> = (tuples, cc)"
    and f: "forContexts rt d (rule\<lparr>conditions := conds\<rparr>) (sortLoopsByPath rt loops0) contextObj
              rac tuples [] = Inr evs"
    and n: "tuples \<noteq> []" "evs \<noteq> []"
  shows "\<exists>rule'. tryRule rt now d contextObj L tlim rac st rule results
            = Some (Inr (rule', results @ conditionalEntry rule evs
                                 # (if limitReached cc \<or> timeReached cc
                                    then [contextLimitEntry rule' L tlim] else [])))"
proof -
  have "forContexts rt d (discovered rule conds tuples cc) (sortLoopsByPath rt loops0) contextObj
          rac tuples [] = Inr evs"
    using f forContexts_cong [of "discovered rule conds tuples cc" "rule\<lparr>conditions := conds\<rparr>"]
    by simp
  with n have "evaluated rt d contextObj rac (discovered rule conds tuples cc)
                 (sortLoopsByPath rt loops0) tuples
               = Inr ((discovered rule conds tuples cc)\<lparr>conditionResultContext := Some evs\<rparr>)"
    by (simp add: evaluated_def)
  moreover have "addRuleToResults ((discovered rule conds tuples cc)
                    \<lparr>conditionResultContext := Some evs\<rparr>) []
                 = [conditionalEntry rule evs]"
    using n(2) by (simp add: addRuleToResults_def conditionalEntry_def discovered_def)
  ultimately show ?thesis by (simp add: tryRule_unfold [OF p e])
qed

lemma tryRule_at_most_one:
  assumes "tryRule rt now d contextObj L tlim False st rule [] = Some (Inr (rule', entries))"
    and "x \<in> set entries" and "resultConditions x = Some (PerContext evs)"
  shows "length evs \<le> 1"
proof -
  from assms(1) obtain conds loops0 where
    p: "processConditionsForLoops (conditions rule) [] = Some (conds, loops0)"
    by (auto simp: tryRule_def split: option.splits)
  obtain tuples cc where e:
    "explodeContexts rt now d (sortLoopsByPath rt loops0) [] L st tlim
       \<lparr>count = 0, limitReached = False, timeReached = False\<rparr> = (tuples, cc)"
    by (cases "explodeContexts rt now d (sortLoopsByPath rt loops0) [] L st tlim
       \<lparr>count = 0, limitReached = False, timeReached = False\<rparr>")
  let ?R = "discovered rule conds tuples cc"
  from assms(1) obtain rule4 where
    ev: "evaluated rt d contextObj False ?R (sortLoopsByPath rt loops0) tuples = Inr rule4"
    and en: "entries = addRuleToResults rule4 []
               @ (if limitReached cc \<or> timeReached cc then [contextLimitEntry rule4 L tlim] else [])"
    by (auto simp: tryRule_unfold [OF p e] split: sum.splits)
  have "\<exists>crc. conditionResultContext rule4 = Some crc \<and> length crc \<le> 1"
  proof (cases "tuples = []")
    case True
    with ev show ?thesis by (auto simp: evaluated_def discovered_def split: sum.splits)
  next
    case False
    with ev obtain crc where
      f: "forContexts rt d ?R (sortLoopsByPath rt loops0) contextObj False tuples [] = Inr crc"
      and r4: "rule4 = ?R\<lparr>conditionResultContext := Some crc\<rparr>"
      by (auto simp: evaluated_def split: sum.splits)
    from forContexts_at_most_one [OF f] r4 show ?thesis by simp
  qed
  then obtain crc where c: "conditionResultContext rule4 = Some crc" "length crc \<le> 1" by blast
  from assms(2,3) en c show ?thesis
    by (auto simp: addRuleToResults_def contextLimitEntry_def split: option.splits if_splits)
qed

subsection \<open>Calls that return\<close>

text \<open>
  A call returns whenever no path of a rule contains a dollar sign.
\<close>

lemma copyRule_dollarFree:
  "\<forall>c\<in>set (conditions r). dollarFree c \<Longrightarrow> \<forall>c\<in>set (conditions (copyRule rt r)). dollarFree c"
  by (auto simp: copyRule_def copyCondition_def dollarFree_def)

lemma forEachRule_returns:
  "\<forall>r\<in>set rules. \<forall>c\<in>set (conditions r). dollarFree c
     \<Longrightarrow> forEachRule rt leaf d contextObj L tlim rac st i rules results \<noteq> None"
proof (induction rules arbitrary: i results)
  case Nil
  show ?case by simp
next
  case (Cons r rules)
  from Cons.prems have "\<forall>c\<in>set (conditions r). dollarFree c" by simp
  from tryRule_returns [OF this, of rt "leaf i" d contextObj L tlim rac st results]
  obtain out where "tryRule rt (leaf i) d contextObj L tlim rac st r results = Some out" by blast
  with Cons.IH Cons.prems show ?case by (auto split: sum.splits)
qed

lemma filterRulesByDate_subset: "set (filterRulesByDate clk rules) \<subseteq> set rules"
  by (auto simp: filterRulesByDate_def dest: set_zip_rightD)

lemma validateRules_returns:
  assumes "\<forall>r\<in>set rules. \<forall>c\<in>set (conditions r). dollarFree c"
  shows "validateRules rt clk d rules contextObj opts \<noteq> None"
proof -
  have "\<forall>r\<in>set (filterRulesByDate clk (map (copyRule rt) rules)).
          \<forall>c\<in>set (conditions r). dollarFree c"
  proof
    fix r assume "r \<in> set (filterRulesByDate clk (map (copyRule rt) rules))"
    with filterRulesByDate_subset obtain r0 where "r0 \<in> set rules" "r = copyRule rt r0"
      by fastforce
    with assms copyRule_dollarFree [of r0 rt] show "\<forall>c\<in>set (conditions r). dollarFree c" by simp
  qed
  from forEachRule_returns [OF this] show ?thesis by (simp add: validateRules_def Let_def)
qed

subsection \<open>From a condition that throws to the entry of the rule\<close>

text \<open>
  A condition that carries both comparison fields, or whose operator is not supported
  while its left operand is defined, throws when it is evaluated. When the conditions
  before it pass and the loop over the contexts reaches its context, the block of the
  rule throws and the rule gets the entry of the \<^verbatim>\<open>catch\<close> block.
\<close>

lemma discovery_keeps:
  assumes "processConditionsForLoops conds [] = Some (conds', loops0)"
  shows "map operator (inContext conds' loops t) = map operator conds
         \<and> map conflicting (inContext conds' loops t) = map conflicting conds
         \<and> map operator conds' = map operator conds
         \<and> map conflicting conds' = map conflicting conds"
proof -
  from processConditionsForLoops_shape [OF assms]
  have a: "list_all2 sameShape conds conds'" by simp
  have b: "list_all2 sameShape conds' (inContext conds' loops t)"
    by (simp add: inContext_def list_all2_map2 list_all2_refl replaceContextValues_shape)
  have k: "map operator ys = map operator xs \<and> map conflicting ys = map conflicting xs"
    if "list_all2 sameShape xs ys" for xs ys :: "'a condition list"
    using that by induction (auto simp: sameShape_def conflicting_def)
  from k [OF a] k [OF b] show ?thesis by simp
qed

lemma meetsError_at:
  assumes "i < length cs" and "list_all (passes rt d contextObj) (take i cs)"
    and "tryCondition rt d contextObj (cs ! i) = None"
  shows "meetsError rt d contextObj cs"
proof -
  from assms(1) have "cs = take i cs @ cs ! i # drop (Suc i) cs" by (simp add: id_take_nth_drop)
  with meetsError_reached [OF assms(2,3), of "drop (Suc i) cs"] show ?thesis by simp
qed

lemma contextsThrow_reached:
  assumes "rac \<or> list_all (\<lambda>u. \<not> list_all (passes rt d contextObj) (inContext conds loops u)) tpre"
    and "meetsError rt d contextObj (inContext conds loops t)"
  shows "contextsThrow rt d contextObj rac conds loops (tpre @ t # tpost)"
  using assms(1) by (induction tpre) (auto simp: assms(2))

lemma errorResult_discovered:
  "errorResult (discovered rule conds tuples cc) msg = errorResult rule msg"
  by (simp add: errorResult_def discovered_def)

lemma ruleEntries_throws:
  assumes p: "processConditionsForLoops (conditions rule) [] = Some (conds, loops0)"
    and e: "explodeContexts rt now d (sortLoopsByPath rt loops0) [] L st tlim
              \<lparr>count = 0, limitReached = False, timeReached = False\<rparr> = (tuples, cc)"
    and t: "ruleThrows rt d contextObj rac conds (sortLoopsByPath rt loops0) tuples"
  shows "ruleEntries rt now d contextObj L tlim rac st rule
           = Some [errorResult rule
                     (if tuples = [] then ''Failed to evaluate conditions in one context.''
                      else ''Failed to evaluate conditions in one context in rule [''
                           @ ruleId rule @ ''].'')]"
proof -
  from tryRule_throws [OF p e, of contextObj rac "[]"] obtain out where
    o: "tryRule rt now d contextObj L tlim rac st rule [] = Some out"
    and i: "isl out \<longleftrightarrow> ruleThrows rt d contextObj rac conds (sortLoopsByPath rt loops0) tuples"
    and m: "\<forall>msg r'. out = Inl (msg, r') \<longrightarrow>
                 r' = discovered rule conds tuples cc
                 \<and> msg = (if tuples = [] then ''Failed to evaluate conditions in one context.''
                          else ''Failed to evaluate conditions in one context in rule [''
                               @ ruleId rule @ ''].'')"
    by blast
  from i t obtain msg r' where out: "out = Inl (msg, r')" by (cases out) auto
  with m have "r' = discovered rule conds tuples cc"
    and "msg = (if tuples = [] then ''Failed to evaluate conditions in one context.''
                else ''Failed to evaluate conditions in one context in rule [''
                     @ ruleId rule @ ''].'')" by simp_all
  with o out show ?thesis by (simp add: ruleEntries_def errorResult_discovered)
qed

lemma raising_condition:
  assumes p: "processConditionsForLoops (conditions rule) [] = Some (conds, loops0)"
    and i: "i < length (conditions rule)"
    and c: "conflicting (conditions rule ! i)
            \<or> (operator (conditions rule ! i) \<notin> set supportedOperators
               \<and> getValueWithContext rt d (ref (inContext conds loops t ! i)) contextObj \<noteq> None)"
  shows "i < length (inContext conds loops t)
         \<and> tryCondition rt d contextObj (inContext conds loops t ! i) = None"
proof -
  from discovery_keeps [OF p, of loops t]
  have o: "map operator (inContext conds loops t) = map operator (conditions rule)"
    and f: "map conflicting (inContext conds loops t) = map conflicting (conditions rule)"
    by simp_all
  from o have l: "length (inContext conds loops t) = length (conditions rule)"
    by (rule map_eq_imp_length_eq)
  from o i l have o': "operator (inContext conds loops t ! i) = operator (conditions rule ! i)"
    by (metis nth_map)
  from f i l have f': "conflicting (inContext conds loops t ! i) = conflicting (conditions rule ! i)"
    by (metis nth_map)
  from c show ?thesis
  proof
    assume "conflicting (conditions rule ! i)"
    with f' l i show ?thesis by (simp add: tryCondition_conflicting)
  next
    assume "operator (conditions rule ! i) \<notin> set supportedOperators
               \<and> getValueWithContext rt d (ref (inContext conds loops t ! i)) contextObj \<noteq> None"
    with o' l i tryCondition_unsupported [of "inContext conds loops t ! i" rt d contextObj]
    show ?thesis by simp
  qed
qed

lemma raising_condition_simple:
  assumes p: "processConditionsForLoops (conditions rule) [] = Some (conds, loops0)"
    and i: "i < length (conditions rule)"
    and c: "conflicting (conditions rule ! i)
            \<or> (operator (conditions rule ! i) \<notin> set supportedOperators
               \<and> getValueWithContext rt d (ref (conds ! i)) contextObj \<noteq> None)"
  shows "i < length conds \<and> tryCondition rt d contextObj (conds ! i) = None"
proof -
  from discovery_keeps [OF p, of "[]" "[]"]
  have o: "map operator conds = map operator (conditions rule)"
    and f: "map conflicting conds = map conflicting (conditions rule)"
    by simp_all
  from o have l: "length conds = length (conditions rule)" by (rule map_eq_imp_length_eq)
  from o i l have o': "operator (conds ! i) = operator (conditions rule ! i)" by (metis nth_map)
  from f i l have f': "conflicting (conds ! i) = conflicting (conditions rule ! i)"
    by (metis nth_map)
  from c show ?thesis
  proof
    assume "conflicting (conditions rule ! i)"
    with f' l i show ?thesis by (simp add: tryCondition_conflicting)
  next
    assume "operator (conditions rule ! i) \<notin> set supportedOperators
               \<and> getValueWithContext rt d (ref (conds ! i)) contextObj \<noteq> None"
    with o' l i tryCondition_unsupported [of "conds ! i" rt d contextObj]
    show ?thesis by simp
  qed
qed

lemma ruleEntries_raising_context:
  assumes p: "processConditionsForLoops (conditions rule) [] = Some (conds, loops0)"
    and e: "explodeContexts rt now d (sortLoopsByPath rt loops0) [] L st tlim
              \<lparr>count = 0, limitReached = False, timeReached = False\<rparr> = (tpre @ t # tpost, cc)"
    and b: "rac \<or> list_all (\<lambda>u. \<not> list_all (passes rt d contextObj)
                                      (inContext conds (sortLoopsByPath rt loops0) u)) tpre"
    and i: "i < length (conditions rule)"
    and a: "list_all (passes rt d contextObj)
              (take i (inContext conds (sortLoopsByPath rt loops0) t))"
    and c: "conflicting (conditions rule ! i)
            \<or> (operator (conditions rule ! i) \<notin> set supportedOperators
               \<and> getValueWithContext rt d
                    (ref (inContext conds (sortLoopsByPath rt loops0) t ! i)) contextObj \<noteq> None)"
  shows "ruleEntries rt now d contextObj L tlim rac st rule
           = Some [errorResult rule (''Failed to evaluate conditions in one context in rule [''
                                     @ ruleId rule @ ''].'')]"
proof -
  from raising_condition [OF p i c]
  have "i < length (inContext conds (sortLoopsByPath rt loops0) t)"
    and "tryCondition rt d contextObj (inContext conds (sortLoopsByPath rt loops0) t ! i) = None"
    by simp_all
  from meetsError_at [OF this(1) a this(2)]
  have "meetsError rt d contextObj (inContext conds (sortLoopsByPath rt loops0) t)" .
  from contextsThrow_reached [OF b this, of tpost]
  have "ruleThrows rt d contextObj rac conds (sortLoopsByPath rt loops0) (tpre @ t # tpost)"
    by (simp add: ruleThrows_def)
  from ruleEntries_throws [OF p e this] show ?thesis by simp
qed

lemma ruleEntries_raising_simple:
  assumes p: "processConditionsForLoops (conditions rule) [] = Some (conds, loops0)"
    and e: "explodeContexts rt now d (sortLoopsByPath rt loops0) [] L st tlim
              \<lparr>count = 0, limitReached = False, timeReached = False\<rparr> = ([], cc)"
    and i: "i < length (conditions rule)"
    and a: "list_all (passes rt d contextObj) (take i conds)"
    and c: "conflicting (conditions rule ! i)
            \<or> (operator (conditions rule ! i) \<notin> set supportedOperators
               \<and> getValueWithContext rt d (ref (conds ! i)) contextObj \<noteq> None)"
  shows "ruleEntries rt now d contextObj L tlim rac st rule
           = Some [errorResult rule ''Failed to evaluate conditions in one context.'']"
proof -
  from raising_condition_simple [OF p i c]
  have "i < length conds" and "tryCondition rt d contextObj (conds ! i) = None" by simp_all
  from meetsError_at [OF this(1) a this(2)] have "meetsError rt d contextObj conds" .
  then have "ruleThrows rt d contextObj rac conds (sortLoopsByPath rt loops0) []"
    by (simp add: ruleThrows_def)
  from ruleEntries_throws [OF p e this] show ?thesis by simp
qed

lemma ruleEntries_caught:
  assumes "tryRule rt now d contextObj L tlim rac st rule [] = Some (Inl (msg, rule'))"
  shows "ruleEntries rt now d contextObj L tlim rac st rule = Some [errorResult rule msg]"
proof -
  from assms obtain conds loops0 where
    p: "processConditionsForLoops (conditions rule) [] = Some (conds, loops0)"
    by (auto simp: tryRule_def split: option.splits)
  obtain tuples cc where e:
    "explodeContexts rt now d (sortLoopsByPath rt loops0) [] L st tlim
       \<lparr>count = 0, limitReached = False, timeReached = False\<rparr> = (tuples, cc)"
    by (cases "explodeContexts rt now d (sortLoopsByPath rt loops0) [] L st tlim
       \<lparr>count = 0, limitReached = False, timeReached = False\<rparr>")
  from tryRule_throws [OF p e, of contextObj rac "[]"] assms
  have "rule' = discovered rule conds tuples cc" by auto
  with assms show ?thesis by (simp add: ruleEntries_def errorResult_discovered)
qed

subsection \<open>From the option to the reported contexts\<close>

text \<open>
  \<open>limitEntries\<close> is the entry that follows the entry of a rule when a budget flag is
  set. The flag handed to the evaluation of a rule is false exactly when the option
  \<^verbatim>\<open>returnAllContexts\<close> is false.
\<close>

definition limitEntries ::
  "'v workingRule \<Rightarrow> contextCounter \<Rightarrow> int \<Rightarrow> int \<Rightarrow> 'v ruleResult list" where
  "limitEntries rule cc L tlim =
     (if limitReached cc \<or> timeReached cc
      then [contextLimitEntry (rule\<lparr>contextLimitReached := Some (limitReached cc),
                                    timeLimitReached := Some (timeReached cc)\<rparr>) L tlim]
      else [])"

lemma ruleEntries_reported:
  assumes p: "processConditionsForLoops (conditions rule) [] = Some (conds, loops0)"
    and e: "explodeContexts rt now d (sortLoopsByPath rt loops0) [] L st tlim
              \<lparr>count = 0, limitReached = False, timeReached = False\<rparr> = (tuples, cc)"
    and f: "forContexts rt d (rule\<lparr>conditions := conds\<rparr>) (sortLoopsByPath rt loops0) contextObj
              rac tuples [] = Inr evs"
    and n: "tuples \<noteq> []" "evs \<noteq> []"
  shows "ruleEntries rt now d contextObj L tlim rac st rule
           = Some (conditionalEntry rule evs # limitEntries rule cc L tlim)"
proof -
  have "forContexts rt d (discovered rule conds tuples cc) (sortLoopsByPath rt loops0) contextObj
          rac tuples [] = Inr evs"
    using f forContexts_cong [of "discovered rule conds tuples cc" "rule\<lparr>conditions := conds\<rparr>"]
    by simp
  with n have "evaluated rt d contextObj rac (discovered rule conds tuples cc)
                 (sortLoopsByPath rt loops0) tuples
               = Inr ((discovered rule conds tuples cc)\<lparr>conditionResultContext := Some evs\<rparr>)"
    by (simp add: evaluated_def)
  moreover have "addRuleToResults ((discovered rule conds tuples cc)
                    \<lparr>conditionResultContext := Some evs\<rparr>) []
                 = [conditionalEntry rule evs]"
    using n(2) by (simp add: addRuleToResults_def conditionalEntry_def discovered_def)
  moreover have "contextLimitEntry ((discovered rule conds tuples cc)
                    \<lparr>conditionResultContext := Some evs\<rparr>) L tlim
                 = contextLimitEntry (rule\<lparr>contextLimitReached := Some (limitReached cc),
                                           timeLimitReached := Some (timeReached cc)\<rparr>) L tlim"
    by (simp add: contextLimitEntry_def discovered_def)
  ultimately show ?thesis
    by (simp add: ruleEntries_def tryRule_unfold [OF p e] limitEntries_def)
qed

lemma ruleEntries_first:
  assumes p: "processConditionsForLoops (conditions rule) [] = Some (conds, loops0)"
    and e: "explodeContexts rt now d (sortLoopsByPath rt loops0) [] L st tlim
              \<lparr>count = 0, limitReached = False, timeReached = False\<rparr> = (pre @ c # post, cc)"
    and f: "map (evaluateContext rt d (rule\<lparr>conditions := conds\<rparr>) (sortLoopsByPath rt loops0)
                   contextObj) pre = map Inr es"
    and g: "list_all (\<lambda>e. \<not> result e) es"
    and h: "evaluateContext rt d (rule\<lparr>conditions := conds\<rparr>) (sortLoopsByPath rt loops0)
              contextObj c = Inr ev"
    and r: "result ev"
  shows "ruleEntries rt now d contextObj L tlim False st rule
           = Some (conditionalEntry rule [ev] # limitEntries rule cc L tlim)"
proof -
  from g have "\<forall>e\<in>set es. \<not> result e" by (simp add: list_all_iff)
  from forContexts_first [OF f this h r, of post "[]"]
  have "forContexts rt d (rule\<lparr>conditions := conds\<rparr>) (sortLoopsByPath rt loops0) contextObj
          False (pre @ c # post) [] = Inr [ev]" by simp
  from ruleEntries_reported [OF p e this] show ?thesis by simp
qed

lemma ruleEntries_all:
  assumes p: "processConditionsForLoops (conditions rule) [] = Some (conds, loops0)"
    and e: "explodeContexts rt now d (sortLoopsByPath rt loops0) [] L st tlim
              \<lparr>count = 0, limitReached = False, timeReached = False\<rparr> = (tuples, cc)"
    and f: "map (evaluateContext rt d (rule\<lparr>conditions := conds\<rparr>) (sortLoopsByPath rt loops0)
                   contextObj) tuples = map Inr es"
    and n: "filter result es \<noteq> []"
  shows "ruleEntries rt now d contextObj L tlim True st rule
           = Some (conditionalEntry rule (filter result es) # limitEntries rule cc L tlim)"
proof -
  from forContexts_all [OF f, of "[]"]
  have a: "forContexts rt d (rule\<lparr>conditions := conds\<rparr>) (sortLoopsByPath rt loops0) contextObj
          True tuples [] = Inr (filter result es)" by simp
  from f n have "tuples \<noteq> []" by auto
  from ruleEntries_reported [OF p e a this n] show ?thesis .
qed

lemma ruleEntries_at_most_one:
  assumes "ruleEntries rt now d contextObj L tlim False st rule = Some entries"
    and "x \<in> set entries" and "resultConditions x = Some (PerContext evs)"
  shows "length evs \<le> 1"
proof (cases "tryRule rt now d contextObj L tlim False st rule []")
  case None
  with assms(1) show ?thesis by (simp add: ruleEntries_def)
next
  case (Some out)
  show ?thesis
  proof (cases out)
    case (Inl a)
    with Some assms show ?thesis
      by (auto simp: ruleEntries_def errorResult_def split: prod.splits)
  next
    case (Inr b)
    obtain rule' es where b: "b = (rule', es)" by (cases b)
    with Some Inr assms(1) have "entries = es" by (simp add: ruleEntries_def)
    with Some Inr b tryRule_at_most_one [of rt now d contextObj L tlim st rule rule' es x evs]
         assms(2,3)
    show ?thesis by simp
  qed
qed

lemma those_concat_member:
  assumes "those xs = Some ys" and "x \<in> set (concat ys)"
  shows "\<exists>es. Some es \<in> set xs \<and> x \<in> set es"
  using assms
proof (induction xs arbitrary: ys)
  case Nil
  then show ?case by simp
next
  case (Cons a xs)
  from Cons.prems(1) obtain y zs where
    y: "a = Some y" "those xs = Some zs" "ys = y # zs"
    by (auto split: option.splits)
  from Cons.prems(2) y(3) have "x \<in> set y \<or> x \<in> set (concat zs)" by simp
  then show ?case
  proof
    assume "x \<in> set y"
    with y(1) show ?thesis by auto
  next
    assume "x \<in> set (concat zs)"
    from Cons.IH [OF y(2) this] show ?thesis by auto
  qed
qed

lemma returnAllContexts_flag:
  "(case optReturnAllContexts opts of Some b \<Rightarrow> b | None \<Rightarrow> True)
     = (optReturnAllContexts opts \<noteq> Some False)"
  by (cases "optReturnAllContexts opts") auto

lemma validateRules_flag:
  "validateRules rt clk d rules contextObj opts
     = map_option concat
         (those (map (\<lambda>(k, r). ruleEntries rt (leafReading clk k) d contextObj
                                (case optContextLimit opts of Some l \<Rightarrow> l | None \<Rightarrow> 10000)
                                (case optTimeLimit opts of Some t \<Rightarrow> t | None \<Rightarrow> 200)
                                (optReturnAllContexts opts \<noteq> Some False)
                                (startReading clk) r)
                   (enumerate 0 (filterRulesByDate clk (map (copyRule rt) rules)))))"
  using validateRules_entries [of rt clk d rules contextObj opts]
  by (simp only: returnAllContexts_flag)

lemma validateRules_at_most_one:
  assumes o: "optReturnAllContexts opts = Some False"
    and v: "validateRules rt clk d rules contextObj opts = Some results"
    and x: "x \<in> set results" and c: "resultConditions x = Some (PerContext evs)"
  shows "length evs \<le> 1"
proof -
  let ?f = "\<lambda>(k, r). ruleEntries rt (leafReading clk k) d contextObj
                                (case optContextLimit opts of Some l \<Rightarrow> l | None \<Rightarrow> 10000)
                                (case optTimeLimit opts of Some t \<Rightarrow> t | None \<Rightarrow> 200)
                                (optReturnAllContexts opts \<noteq> Some False)
                                (startReading clk) r"
  let ?rs = "enumerate 0 (filterRulesByDate clk (map (copyRule rt) rules))"
  from v validateRules_flag [of rt clk d rules contextObj opts]
  obtain ys where ys: "those (map ?f ?rs) = Some ys" "results = concat ys" by auto
  from those_concat_member [OF ys(1)] x ys(2)
  obtain es where es: "Some es \<in> set (map ?f ?rs)" "x \<in> set es" by blast
  then obtain k r where "ruleEntries rt (leafReading clk k) d contextObj
                                (case optContextLimit opts of Some l \<Rightarrow> l | None \<Rightarrow> 10000)
                                (case optTimeLimit opts of Some t \<Rightarrow> t | None \<Rightarrow> 200)
                                (optReturnAllContexts opts \<noteq> Some False)
                                (startReading clk) r = Some es"
    by auto
  with o have "ruleEntries rt (leafReading clk k) d contextObj
                                (case optContextLimit opts of Some l \<Rightarrow> l | None \<Rightarrow> 10000)
                                (case optTimeLimit opts of Some t \<Rightarrow> t | None \<Rightarrow> 200)
                                False (startReading clk) r = Some es"
    by simp
  from ruleEntries_at_most_one [OF this es(2) c] show ?thesis .
qed

lemma validateRules_single:
  assumes "withinDates clk 0 (copyRule rt r0)"
  shows "validateRules rt clk d [r0] contextObj opts
           = ruleEntries rt (leafReading clk 0) d contextObj
               (case optContextLimit opts of Some l \<Rightarrow> l | None \<Rightarrow> 10000)
               (case optTimeLimit opts of Some t \<Rightarrow> t | None \<Rightarrow> 200)
               (optReturnAllContexts opts \<noteq> Some False)
               (startReading clk) (copyRule rt r0)"
proof -
  from assms have "filterRulesByDate clk [copyRule rt r0] = [copyRule rt r0]"
    by (simp add: filterRulesByDate_def)
  then show ?thesis
    by (cases "ruleEntries rt (leafReading clk 0) d contextObj
               (case optContextLimit opts of Some l \<Rightarrow> l | None \<Rightarrow> 10000)
               (case optTimeLimit opts of Some t \<Rightarrow> t | None \<Rightarrow> 200)
               (optReturnAllContexts opts \<noteq> Some False)
               (startReading clk) (copyRule rt r0)")
       (simp_all add: validateRules_flag enumerate_eq_zip)
qed

section \<open>The call on a store of objects\<close>

text \<open>
  To say what a call leaves of its arguments, the arguments are references into a store
  of objects. The document and the side context are value objects. \<^verbatim>\<open>rules\<close> is an array
  of references to rule objects; a rule object holds the fields of the rule and a
  reference to the array of its conditions, which are objects of their own (inside a rule
  object the field \<open>conditions\<close> of the record is not used and stays empty). A store
  gives the object at each address and the next address that \<open>alloc\<close> will use.
\<close>

type_synonym addr = nat

datatype 'v object =
    ValueObject 'v
  | ConditionObject "'v condition"
  | ArrayObject "addr list"
  | RuleObject "'v workingRule" addr

record 'v store =
  objects :: "addr \<Rightarrow> 'v object option"
  nextFree :: addr

definition alloc :: "'v store \<Rightarrow> 'v object \<Rightarrow> addr \<times> 'v store" where
  "alloc s obj =
     (nextFree s, s\<lparr>objects := (objects s)(nextFree s \<mapsto> obj), nextFree := Suc (nextFree s)\<rparr>)"

fun allocAll :: "'v store \<Rightarrow> 'v object list \<Rightarrow> addr list \<times> 'v store" where
  "allocAll s [] = ([], s)"
| "allocAll s (obj # objs) =
     (case alloc s obj of
        (a, s1) \<Rightarrow> (case allocAll s1 objs of (as, s2) \<Rightarrow> (a # as, s2)))"

text \<open>
  Reading through a reference. \<open>None\<close> is the answer where the reference does not lead
  to an object of the expected kind. \<open>readRule\<close> reads a rule object together with its
  conditions, as a rule of the data model.
\<close>

definition valueAt :: "'v store \<Rightarrow> addr \<Rightarrow> 'v option" where
  "valueAt s a = (case objects s a of Some (ValueObject v) \<Rightarrow> Some v | _ \<Rightarrow> None)"

definition conditionAt :: "'v store \<Rightarrow> addr \<Rightarrow> 'v condition option" where
  "conditionAt s a = (case objects s a of Some (ConditionObject c) \<Rightarrow> Some c | _ \<Rightarrow> None)"

definition arrayAt :: "'v store \<Rightarrow> addr \<Rightarrow> addr list option" where
  "arrayAt s a = (case objects s a of Some (ArrayObject xs) \<Rightarrow> Some xs | _ \<Rightarrow> None)"

definition contextAtRef :: "'v store \<Rightarrow> addr option \<Rightarrow> 'v option option" where
  "contextAtRef s contextObj =
     (case contextObj of None \<Rightarrow> Some None | Some c \<Rightarrow> map_option Some (valueAt s c))"

definition conditionRefs :: "'v store \<Rightarrow> addr \<Rightarrow> addr list" where
  "conditionRefs s a =
     (case objects s a of
        Some (RuleObject w cref) \<Rightarrow> (case arrayAt s cref of Some cas \<Rightarrow> cas | None \<Rightarrow> [])
      | _ \<Rightarrow> [])"

definition readRule :: "'v store \<Rightarrow> addr \<Rightarrow> 'v workingRule option" where
  "readRule s a =
     (case objects s a of
        Some (RuleObject w cref) \<Rightarrow>
          (case arrayAt s cref of
             Some cas \<Rightarrow>
               (case those (map (conditionAt s) cas) of
                  Some cs \<Rightarrow> Some (w\<lparr>conditions := cs\<rparr>)
                | None \<Rightarrow> None)
           | None \<Rightarrow> None)
      | _ \<Rightarrow> None)"

text \<open>
  The assignments of the \<^verbatim>\<open>try\<close> block, on the store. They are assignments to fields
  of the object \<^verbatim>\<open>rule\<close> (\<^verbatim>\<open>rule.contexts = ...\<close> and the like) and to fields of the
  condition objects of that rule (\<^verbatim>\<open>innerCondition[innerField] = ...\<close> in
  \<^verbatim>\<open>processConditionsForLoops\<close>); the array of the conditions is never assigned. So
  \<open>writeRule\<close> puts each condition of the rule that the block leaves at the address of
  its object and the other fields at the address of the rule object. Every other array
  that the block changes (\<^verbatim>\<open>loops\<close>, \<^verbatim>\<open>results\<close>, the tuples, the evaluations) is
  created inside the call.
\<close>

definition writeRule :: "'v store \<Rightarrow> addr \<Rightarrow> 'v workingRule \<Rightarrow> 'v store" where
  "writeRule s a rule' =
     (case objects s a of
        Some (RuleObject w cref) \<Rightarrow>
          (let s1 = fold (\<lambda>(ca, c) s. s\<lparr>objects := (objects s)(ca \<mapsto> ConditionObject c)\<rparr>)
                      (zip (conditionRefs s a) (conditions rule')) s
           in s1\<lparr>objects := (objects s1)(a \<mapsto> RuleObject (rule'\<lparr>conditions := []\<rparr>) cref)\<rparr>)
      | _ \<Rightarrow> s)"

text \<open>
  \<^verbatim>\<open>JSON.parse(JSON.stringify(rules))\<close>: the rules are read through the references, and
  for each of them new condition objects, a new array of conditions and a new rule object
  are allocated, then a new array for the copies. A rule object of the caller is a rule
  of the data model, none of whose working fields is set (\<open>isPlain\<close>); on any other
  rule object the model gives no answer.
\<close>

definition isPlain :: "'v workingRule \<Rightarrow> bool" where
  "isPlain w = (conditionResultContext w = None \<and> contexts w = None
                \<and> contextLimitReached w = None \<and> timeLimitReached w = None
                \<and> conditionsResult w = None)"

definition copyRuleObject :: "'v runtime \<Rightarrow> 'v store \<Rightarrow> 'v rule \<Rightarrow> addr \<times> 'v store" where
  "copyRuleObject rt s r =
     (let w = copyRule rt r
      in case allocAll s (map ConditionObject (conditions w)) of
           (cas, s1) \<Rightarrow>
             (case alloc s1 (ArrayObject cas) of
                (cref, s2) \<Rightarrow> alloc s2 (RuleObject (w\<lparr>conditions := []\<rparr>) cref)))"

fun copyRules :: "'v runtime \<Rightarrow> 'v store \<Rightarrow> 'v rule list \<Rightarrow> addr list \<times> 'v store" where
  "copyRules rt s [] = ([], s)"
| "copyRules rt s (r # rs) =
     (case copyRuleObject rt s r of
        (a, s1) \<Rightarrow> (case copyRules rt s1 rs of (as, s2) \<Rightarrow> (a # as, s2)))"

definition deepCopy :: "'v runtime \<Rightarrow> 'v store \<Rightarrow> addr \<Rightarrow> (addr \<times> 'v store) option" where
  "deepCopy rt s rules =
     (case arrayAt s rules of
        None \<Rightarrow> None
      | Some refs \<Rightarrow>
          (case those (map (readRule s) refs) of
             None \<Rightarrow> None
           | Some ws \<Rightarrow>
               if list_all isPlain ws
               then (case copyRules rt s (map rule.truncate ws) of
                       (copies, s1) \<Rightarrow> Some (alloc s1 (ArrayObject copies)))
               else None))"

text \<open>
  \<^verbatim>\<open>filterRulesByDate\<close> and the loop of \<^verbatim>\<open>validateRules\<close> on references: the rule is
  read where the block starts, the block runs as \<open>tryRule\<close>, and the rule as the block
  leaves it is written back at the same reference. The document and the side context are
  read through their references at every rule. \<open>None\<close> is a call that never returns, or
  a store where a reference does not lead to an object of the expected kind.
\<close>

definition filterRefsByDate :: "clock \<Rightarrow> 'v store \<Rightarrow> addr list \<Rightarrow> addr list" where
  "filterRefsByDate clk s refs =
     map snd (filter (\<lambda>(i, a). case readRule s a of
                                  Some rule \<Rightarrow> withinDates clk i rule
                                | None \<Rightarrow> False)
                (zip [0..<length refs] refs))"

fun forEachRuleRef ::
  "'v runtime \<Rightarrow> (nat \<Rightarrow> nat \<Rightarrow> int) \<Rightarrow> addr \<Rightarrow> addr option \<Rightarrow> int \<Rightarrow> int \<Rightarrow> bool \<Rightarrow> int
     \<Rightarrow> nat \<Rightarrow> addr list \<Rightarrow> 'v ruleResult list \<Rightarrow> 'v store
     \<Rightarrow> ('v ruleResult list \<times> 'v store) option" where
  "forEachRuleRef rt leaf documentJson contextObj contextLimit timeLimit returnAllContexts
       startTime i [] results s = Some (results, s)"
| "forEachRuleRef rt leaf documentJson contextObj contextLimit timeLimit returnAllContexts
       startTime i (a # rest) results s =
     (case (readRule s a, valueAt s documentJson, contextAtRef s contextObj) of
        (Some rule, Some doc, Some ctx) \<Rightarrow>
          (case tryRule rt (leaf i) doc ctx contextLimit timeLimit returnAllContexts startTime
                  rule results of
             None \<Rightarrow> None
           | Some (Inr (rule', results')) \<Rightarrow>
               forEachRuleRef rt leaf documentJson contextObj contextLimit timeLimit
                 returnAllContexts startTime (i + 1) rest results' (writeRule s a rule')
           | Some (Inl (msg, rule')) \<Rightarrow>
               forEachRuleRef rt leaf documentJson contextObj contextLimit timeLimit
                 returnAllContexts startTime (i + 1) rest (results @ [errorResult rule' msg])
                 (writeRule s a rule'))
      | _ \<Rightarrow> None)"

definition validateRulesOnStore ::
  "'v runtime \<Rightarrow> clock \<Rightarrow> 'v store \<Rightarrow> addr \<Rightarrow> addr \<Rightarrow> addr option \<Rightarrow> options
     \<Rightarrow> ('v ruleResult list \<times> 'v store) option" where
  "validateRulesOnStore rt clk s documentJson rules contextObj opts =
     (case deepCopy rt s rules of
        None \<Rightarrow> None
      | Some (rulesObj, s1) \<Rightarrow>
          (case arrayAt s1 rulesObj of
             None \<Rightarrow> None
           | Some copies \<Rightarrow>
               let contextLimit = (case optContextLimit opts of Some l \<Rightarrow> l | None \<Rightarrow> 10000);
                   timeLimit = (case optTimeLimit opts of Some t \<Rightarrow> t | None \<Rightarrow> 200);
                   returnAllContexts =
                     (case optReturnAllContexts opts of Some b \<Rightarrow> b | None \<Rightarrow> True);
                   results = [];
                   validRulesByDate = filterRefsByDate clk s1 copies;
                   startTime = startReading clk
               in forEachRuleRef rt (leafReading clk) documentJson contextObj contextLimit
                    timeLimit returnAllContexts startTime 0 validRulesByDate results s1))"

subsection \<open>Allocation, reading and writing\<close>

text \<open>
  A store is \<open>allocated\<close> when it has no object at or above its next free address.
  The \<open>footprint\<close> of a rule reference is the set of addresses that \<open>readRule\<close> looks
  at: the rule object, the array of its conditions and the condition objects. \<open>writeRule\<close>
  changes the store inside the footprint only, and \<open>readRule\<close> depends on nothing else.
\<close>

definition allocated :: "'v store \<Rightarrow> bool" where
  "allocated s = (\<forall>a. nextFree s \<le> a \<longrightarrow> objects s a = None)"

definition footprint :: "'v store \<Rightarrow> addr \<Rightarrow> addr set" where
  "footprint s a =
     insert a (case objects s a of
                 Some (RuleObject w cref) \<Rightarrow> insert cref (set (conditionRefs s a))
               | _ \<Rightarrow> {})"

lemma those_map_Some: "those (map f xs) = Some ys \<longleftrightarrow> map f xs = map Some ys"
  by (induction xs arbitrary: ys) (auto split: option.splits)

lemma those_map_None: "those (map f xs) = None \<longleftrightarrow> (\<exists>x\<in>set xs. f x = None)"
  by (induction xs) (auto split: option.splits)

lemma allocAll_spec:
  "allocAll s objs = (as, s') \<Longrightarrow>
     nextFree s \<le> nextFree s'
     \<and> set as \<subseteq> {nextFree s..<nextFree s'}
     \<and> (\<forall>x<nextFree s. objects s' x = objects s x)
     \<and> map (objects s') as = map Some objs
     \<and> (allocated s \<longrightarrow> allocated s')"
proof (induction objs arbitrary: s as s')
  case Nil
  then show ?case by simp
next
  case (Cons obj objs)
  obtain a s1 where a: "alloc s obj = (a, s1)" by (cases "alloc s obj")
  obtain bs s2 where b: "allocAll s1 objs = (bs, s2)" by (cases "allocAll s1 objs")
  from a have a': "a = nextFree s" "nextFree s1 = Suc (nextFree s)"
    "objects s1 = (objects s)(nextFree s \<mapsto> obj)"
    by (auto simp: alloc_def)
  from Cons.prems a b have r: "as = a # bs" "s' = s2" by simp_all
  note ih = Cons.IH [OF b]
  from ih a' have "objects s2 a = Some obj" by simp
  moreover from a' have "allocated s \<longrightarrow> allocated s1" by (auto simp: allocated_def)
  ultimately show ?case using ih a' r by auto
qed

lemma alloc_spec:
  "alloc s obj = (a, s') \<Longrightarrow>
     a = nextFree s \<and> nextFree s' = Suc (nextFree s)
     \<and> (\<forall>x<nextFree s. objects s' x = objects s x)
     \<and> objects s' a = Some obj
     \<and> (allocated s \<longrightarrow> allocated s')"
  by (auto simp: alloc_def allocated_def)

lemma readRule_cong:
  assumes "\<forall>x\<in>footprint s a. objects s' x = objects s x"
  shows "readRule s' a = readRule s a \<and> footprint s' a = footprint s a"
proof -
  from assms have a: "objects s' a = objects s a" by (simp add: footprint_def)
  show ?thesis
  proof (cases "objects s a")
    case None
    with a show ?thesis by (simp add: readRule_def footprint_def)
  next
    case (Some obj)
    show ?thesis
    proof (cases obj)
      case (RuleObject w cref)
      with Some assms have c: "objects s' cref = objects s cref"
        by (simp add: footprint_def)
      then have arr: "arrayAt s' cref = arrayAt s cref" by (simp add: arrayAt_def)
      have refs: "conditionRefs s' a = conditionRefs s a"
        using a arr Some RuleObject by (simp add: conditionRefs_def)
      have "map (conditionAt s') (conditionRefs s a) = map (conditionAt s) (conditionRefs s a)"
        using assms Some RuleObject by (auto simp: footprint_def conditionAt_def)
      moreover have "arrayAt s cref = Some cas \<Longrightarrow> conditionRefs s a = cas" for cas
        using Some RuleObject by (simp add: conditionRefs_def)
      ultimately have "readRule s' a = readRule s a"
        using a arr Some RuleObject
        by (cases "arrayAt s cref") (simp_all add: readRule_def cong: map_cong)
      moreover have "footprint s' a = footprint s a"
        using a refs Some RuleObject by (simp add: footprint_def)
      ultimately show ?thesis by simp
    qed (use a Some in \<open>simp_all add: readRule_def footprint_def\<close>)
  qed
qed

lemma readRule_footprint:
  assumes "readRule s a = Some w" and "x \<in> footprint s a"
  shows "objects s x \<noteq> None"
proof -
  from assms(1) obtain w0 cref cas cs where
    o: "objects s a = Some (RuleObject w0 cref)" and arr: "arrayAt s cref = Some cas"
    and cs: "those (map (conditionAt s) cas) = Some cs"
    by (auto simp: readRule_def split: option.splits object.splits)
  from cs have "\<forall>c\<in>set cas. conditionAt s c \<noteq> None"
    using those_map_None [of "conditionAt s" cas] by auto
  moreover have "conditionAt s c \<noteq> None \<Longrightarrow> objects s c \<noteq> None" for c
    by (cases "objects s c") (simp_all add: conditionAt_def)
  ultimately have "\<forall>c\<in>set cas. objects s c \<noteq> None" by blast
  moreover from arr have "objects s cref \<noteq> None"
    by (cases "objects s cref") (simp_all add: arrayAt_def)
  moreover from o arr have "footprint s a = insert a (insert cref (set cas))"
    by (simp add: footprint_def conditionRefs_def)
  ultimately show ?thesis using o assms(2) by auto
qed

lemma fold_write_frame:
  "x \<notin> set (map fst ps) \<Longrightarrow>
     objects (fold (\<lambda>(ca, c) s. s\<lparr>objects := (objects s)(ca \<mapsto> ConditionObject c)\<rparr>) ps s) x
       = objects s x"
  by (induction ps arbitrary: s) auto

lemma fold_write_nextFree:
  "nextFree (fold (\<lambda>(ca, c) s. s\<lparr>objects := (objects s)(ca \<mapsto> ConditionObject c)\<rparr>) ps s)
       = nextFree s"
  by (induction ps arbitrary: s) auto

lemma writeRule_nextFree: "nextFree (writeRule s a rule') = nextFree s"
  by (simp add: writeRule_def fold_write_nextFree Let_def split: option.splits object.splits)

lemma writeRule_frame:
  assumes "x \<notin> footprint s a"
  shows "objects (writeRule s a rule') x = objects s x"
proof (cases "\<exists>w cref. objects s a = Some (RuleObject w cref)")
  case False
  then show ?thesis by (auto simp: writeRule_def split: option.splits object.splits)
next
  case True
  then obtain w cref where o: "objects s a = Some (RuleObject w cref)" by blast
  with assms have x: "x \<noteq> a" "x \<notin> set (conditionRefs s a)"
    by (auto simp: footprint_def)
  from x(2) have "x \<notin> set (map fst (zip (conditionRefs s a) (conditions rule')))"
    by (auto dest: set_zip_leftD)
  with x(1) o show ?thesis
    by (simp add: writeRule_def Let_def fold_write_frame)
qed

lemma writeRule_allocated:
  assumes "allocated s" and "footprint s a \<subseteq> {..<nextFree s}"
  shows "allocated (writeRule s a rule')"
  unfolding allocated_def
proof (intro allI impI)
  fix x assume "nextFree (writeRule s a rule') \<le> x"
  then have x: "nextFree s \<le> x" by (simp add: writeRule_nextFree)
  with assms(2) have "x \<notin> footprint s a" by auto
  then have "objects (writeRule s a rule') x = objects s x" by (rule writeRule_frame)
  with assms(1) x show "objects (writeRule s a rule') x = None" by (simp add: allocated_def)
qed

subsection \<open>The copy\<close>

text \<open>
  The copies lie between the next free address before the copy and the one after it,
  they read as \<open>copyRule\<close> of the rules copied, their footprints are disjoint from one
  another, and every object that was there before is as it was.
\<close>

lemma conditionAt_objects:
  "map (objects s) cas = map Some (map ConditionObject cs)
     \<Longrightarrow> map (conditionAt s) cas = map Some cs"
  by (induction cas arbitrary: cs) (auto simp: conditionAt_def)

lemma copyRuleObject_spec:
  assumes "copyRuleObject rt s r = (a, s')"
  shows "nextFree s \<le> nextFree s'
         \<and> (\<forall>x<nextFree s. objects s' x = objects s x)
         \<and> readRule s' a = Some (copyRule rt r)
         \<and> footprint s' a \<subseteq> {nextFree s..<nextFree s'}
         \<and> (allocated s \<longrightarrow> allocated s')"
proof -
  define w where "w = copyRule rt r"
  obtain cas s1 where c: "allocAll s (map ConditionObject (conditions w)) = (cas, s1)"
    by (cases "allocAll s (map ConditionObject (conditions w))")
  obtain cref s2 where r: "alloc s1 (ArrayObject cas) = (cref, s2)"
    by (cases "alloc s1 (ArrayObject cas)")
  from assms c r have a: "alloc s2 (RuleObject (w\<lparr>conditions := []\<rparr>) cref) = (a, s')"
    by (simp add: copyRuleObject_def w_def [symmetric] Let_def)
  note c' = allocAll_spec [OF c] and r' = alloc_spec [OF r] and a' = alloc_spec [OF a]
  have oa: "objects s' a = Some (RuleObject (w\<lparr>conditions := []\<rparr>) cref)"
    using a' by blast
  have "objects s' cref = Some (ArrayObject cas)"
    using a' r' by auto
  then have arr: "arrayAt s' cref = Some cas" by (simp add: arrayAt_def)
  have "objects s' x = objects s1 x" if "x \<in> set cas" for x
  proof -
    from that c' have "x < nextFree s1" by auto
    with a' r' show ?thesis by simp
  qed
  then have "map (objects s') cas = map (objects s1) cas" by simp
  with c' have "map (objects s') cas = map Some (map ConditionObject (conditions w))"
    by simp
  then have "map (conditionAt s') cas = map Some (conditions w)"
    by (rule conditionAt_objects)
  then have "those (map (conditionAt s') cas) = Some (conditions w)"
    by (simp add: those_map_Some)
  with oa arr have "readRule s' a = Some (copyRule rt r)"
    by (simp add: readRule_def w_def)
  moreover have "footprint s' a = insert a (insert cref (set cas))"
    using oa arr by (simp add: footprint_def conditionRefs_def)
  with c' r' a' have "footprint s' a \<subseteq> {nextFree s..<nextFree s'}" by auto
  moreover have "\<forall>x<nextFree s. objects s' x = objects s x"
    using c' r' a' by auto
  moreover have "nextFree s \<le> nextFree s'" using c' r' a' by simp
  moreover have "allocated s \<longrightarrow> allocated s'" using c' r' a' by blast
  ultimately show ?thesis by blast
qed

lemma copyRules_spec:
  "copyRules rt s rs = (as, s') \<Longrightarrow>
     nextFree s \<le> nextFree s'
     \<and> (\<forall>x<nextFree s. objects s' x = objects s x)
     \<and> map (readRule s') as = map (\<lambda>r. Some (copyRule rt r)) rs
     \<and> (\<forall>a\<in>set as. footprint s' a \<subseteq> {nextFree s..<nextFree s'})
     \<and> distinct as
     \<and> (\<forall>a\<in>set as. \<forall>b\<in>set as. a \<noteq> b \<longrightarrow> footprint s' a \<inter> footprint s' b = {})
     \<and> (allocated s \<longrightarrow> allocated s')"
proof (induction rs arbitrary: s as s')
  case Nil
  then show ?case by simp
next
  case (Cons r rs)
  obtain a s1 where a: "copyRuleObject rt s r = (a, s1)" by (cases "copyRuleObject rt s r")
  obtain bs s2 where b: "copyRules rt s1 rs = (bs, s2)" by (cases "copyRules rt s1 rs")
  from Cons.prems a b have e: "as = a # bs" "s' = s2" by simp_all
  note a' = copyRuleObject_spec [OF a] and ih = Cons.IH [OF b]
  have fa: "\<forall>x\<in>footprint s1 a. objects s2 x = objects s1 x"
    using a' ih by auto
  from readRule_cong [OF fa] have ra: "readRule s2 a = readRule s1 a"
    and fpa: "footprint s2 a = footprint s1 a" by simp_all
  have inside: "footprint s2 a \<subseteq> {nextFree s..<nextFree s1}"
    using a' fpa by simp
  have others: "\<forall>b\<in>set bs. footprint s2 b \<subseteq> {nextFree s1..<nextFree s2}"
    using ih by blast
  have "a \<notin> set bs"
  proof
    assume "a \<in> set bs"
    with others have "a \<in> {nextFree s1..<nextFree s2}" by (auto simp: footprint_def)
    moreover from inside have "a \<in> {nextFree s..<nextFree s1}" by (auto simp: footprint_def)
    ultimately show False by simp
  qed
  moreover have "\<forall>b\<in>set bs. footprint s2 a \<inter> footprint s2 b = {}"
    using inside others by fastforce
  moreover have "\<forall>b\<in>set as. footprint s' b \<subseteq> {nextFree s..<nextFree s'}"
    using inside others a' ih e by fastforce
  moreover have "map (readRule s') as = map (\<lambda>r. Some (copyRule rt r)) (r # rs)"
    using ra a' ih e by simp
  moreover have "\<forall>x<nextFree s. objects s' x = objects s x"
    using a' ih e by auto
  moreover have "nextFree s \<le> nextFree s'" using a' ih e by simp
  moreover have "allocated s \<longrightarrow> allocated s'" using a' ih e by blast
  moreover have "distinct bs" using ih by blast
  moreover have "\<forall>a\<in>set bs. \<forall>b\<in>set bs. a \<noteq> b \<longrightarrow> footprint s' a \<inter> footprint s' b = {}"
    using ih e by blast
  ultimately show ?case using e by (auto simp: Int_commute)
qed

subsection \<open>The loop over the copies\<close>

text \<open>
  On rule objects with disjoint footprints above \<open>n0\<close> the loop on references gives the
  results of \<open>forEachRule\<close> on the rules read, and leaves every object below \<open>n0\<close> as
  it was.
\<close>

lemma filter_zip_reads:
  assumes "length ks = length as" and "length as = length ws"
    and "map (readRule s) as = map Some ws"
  shows "map (readRule s)
           (map snd (filter (\<lambda>(i, a). case readRule s a of
                                          Some rule \<Rightarrow> withinDates clk i rule
                                        | None \<Rightarrow> False) (zip ks as)))
         = map Some (map snd (filter (\<lambda>(i, rule). withinDates clk i rule) (zip ks ws)))"
  using assms by (induction ks as ws rule: list_induct3) auto

lemma filterRefsByDate_reads:
  assumes "map (readRule s) as = map Some ws"
  shows "map (readRule s) (filterRefsByDate clk s as) = map Some (filterRulesByDate clk ws)"
proof -
  from assms have l: "length as = length ws" by (rule map_eq_imp_length_eq)
  from filter_zip_reads [OF _ l assms, of "[0..<length as]" clk] l show ?thesis
    by (simp add: filterRefsByDate_def filterRulesByDate_def)
qed

lemma filterRefsByDate_set: "set (filterRefsByDate clk s as) \<subseteq> set as"
  by (auto simp: filterRefsByDate_def dest: set_zip_rightD)

lemma filterRefsByDate_distinct: "distinct as \<Longrightarrow> distinct (filterRefsByDate clk s as)"
  unfolding filterRefsByDate_def by (rule distinct_map_filter) simp

lemma forEachRuleRef_spec:
  assumes "distinct as"
    and "\<forall>a\<in>set as. \<forall>b\<in>set as. a \<noteq> b \<longrightarrow> footprint s a \<inter> footprint s b = {}"
    and "\<forall>a\<in>set as. footprint s a \<subseteq> {n0..<nextFree s}"
    and "map (readRule s) as = map Some rs"
    and "\<forall>x<n0. objects s x = objects s0 x"
    and "valueAt s0 documentJson = Some doc" and "documentJson < n0"
    and "contextAtRef s0 contextObj = Some ctx"
    and "case contextObj of None \<Rightarrow> True | Some c \<Rightarrow> c < n0"
    and "allocated s"
  shows "case forEachRule rt leaf doc ctx L tlim rac st i rs results of
           None \<Rightarrow>
             forEachRuleRef rt leaf documentJson contextObj L tlim rac st i as results s = None
         | Some res \<Rightarrow>
             (\<exists>s'. forEachRuleRef rt leaf documentJson contextObj L tlim rac st i as results s
                      = Some (res, s')
                   \<and> (\<forall>x<n0. objects s' x = objects s0 x)
                   \<and> nextFree s' = nextFree s \<and> allocated s')"
  using assms
proof (induction as arbitrary: s rs results i)
  case Nil
  then show ?case by simp
next
  case (Cons a rest)
  from Cons.prems(4) obtain r rs' where rs: "rs = r # rs'" and ra: "readRule s a = Some r"
    and rrest: "map (readRule s) rest = map Some rs'"
    by (cases rs) auto
  have doc: "valueAt s documentJson = Some doc"
    using Cons.prems(5,6,7) by (simp add: valueAt_def)
  have ctx: "contextAtRef s contextObj = Some ctx"
    using Cons.prems(5,8,9) by (cases contextObj) (simp_all add: contextAtRef_def valueAt_def)
  show ?case
  proof (cases "tryRule rt (leaf i) doc ctx L tlim rac st r results")
    case None
    with ra doc ctx rs show ?thesis by simp
  next
    case (Some out)
    define rule' where "rule' = (case out of Inr (x, _) \<Rightarrow> x | Inl (_, x) \<Rightarrow> x)"
    define results' where
      "results' = (case out of Inr (_, y) \<Rightarrow> y | Inl (msg, x) \<Rightarrow> results @ [errorResult x msg])"
    define s1 where "s1 = writeRule s a rule'"
    have step: "forEachRuleRef rt leaf documentJson contextObj L tlim rac st i (a # rest) results s
                  = forEachRuleRef rt leaf documentJson contextObj L tlim rac st (i + 1) rest
                      results' s1"
      using ra doc ctx Some
      by (cases out) (auto simp: rule'_def results'_def s1_def)
    have pure: "forEachRule rt leaf doc ctx L tlim rac st i rs results
                  = forEachRule rt leaf doc ctx L tlim rac st (i + 1) rs' results'"
      using Some by (cases out) (auto simp: rs results'_def)
    have fa: "footprint s a \<subseteq> {n0..<nextFree s}" using Cons.prems(3) by simp
    have keep: "objects s1 x = objects s x" if "x \<notin> footprint s a" for x
      using that by (simp add: s1_def writeRule_frame)
    have nf: "nextFree s1 = nextFree s" by (simp add: s1_def writeRule_nextFree)
    have same: "readRule s1 b = readRule s b \<and> footprint s1 b = footprint s b"
      if "b \<in> set rest" for b
    proof (rule readRule_cong, rule ballI)
      fix x assume x: "x \<in> footprint s b"
      from that Cons.prems(1) have "a \<noteq> b" by auto
      with that Cons.prems(2) have "footprint s a \<inter> footprint s b = {}" by simp
      with x have "x \<notin> footprint s a" by auto
      then show "objects s1 x = objects s x" by (rule keep)
    qed
    have "case forEachRule rt leaf doc ctx L tlim rac st (i + 1) rs' results' of
            None \<Rightarrow>
              forEachRuleRef rt leaf documentJson contextObj L tlim rac st (i + 1) rest results' s1
                = None
          | Some res \<Rightarrow>
              (\<exists>s'. forEachRuleRef rt leaf documentJson contextObj L tlim rac st (i + 1) rest
                         results' s1 = Some (res, s')
                    \<and> (\<forall>x<n0. objects s' x = objects s0 x)
                    \<and> nextFree s' = nextFree s1 \<and> allocated s')"
    proof (rule Cons.IH)
      show "distinct rest" using Cons.prems(1) by simp
      show "\<forall>a\<in>set rest. \<forall>b\<in>set rest. a \<noteq> b \<longrightarrow> footprint s1 a \<inter> footprint s1 b = {}"
        using same Cons.prems(2) by simp
      show "\<forall>a\<in>set rest. footprint s1 a \<subseteq> {n0..<nextFree s1}"
        using same Cons.prems(3) nf by simp
      show "map (readRule s1) rest = map Some rs'"
        using same rrest by (simp cong: map_cong)
      show "\<forall>x<n0. objects s1 x = objects s0 x"
      proof (intro allI impI)
        fix x assume "x < n0"
        with fa have "x \<notin> footprint s a" by auto
        with keep Cons.prems(5) \<open>x < n0\<close> show "objects s1 x = objects s0 x" by simp
      qed
      show "allocated s1"
        unfolding s1_def using Cons.prems(10) fa by (intro writeRule_allocated) auto
    qed (use Cons.prems in simp_all)
    with step pure nf show ?thesis by (simp split: option.splits)
  qed
qed

lemma allocated_bound: "allocated s \<Longrightarrow> objects s x \<noteq> None \<Longrightarrow> x < nextFree s"
  by (auto simp: allocated_def not_le [symmetric])

lemma validateRulesOnStore_spec:
  assumes al: "allocated s"
    and doc: "valueAt s documentJson = Some doc"
    and arr: "arrayAt s rules = Some refs"
    and reads: "map (readRule s) refs = map Some ws"
    and plain: "list_all isPlain ws"
    and ctx: "contextAtRef s contextObj = Some ctx"
  shows "case validateRules rt clk doc (map rule.truncate ws) ctx opts of
           None \<Rightarrow> validateRulesOnStore rt clk s documentJson rules contextObj opts = None
         | Some res \<Rightarrow>
             (\<exists>s'. validateRulesOnStore rt clk s documentJson rules contextObj opts
                      = Some (res, s')
                   \<and> (\<forall>x<nextFree s. objects s' x = objects s x)
                   \<and> nextFree s \<le> nextFree s' \<and> allocated s')"
proof -
  obtain copies s1 where c: "copyRules rt s (map rule.truncate ws) = (copies, s1)"
    by (cases "copyRules rt s (map rule.truncate ws)")
  obtain rulesObj s2 where r: "alloc s1 (ArrayObject copies) = (rulesObj, s2)"
    by (cases "alloc s1 (ArrayObject copies)")
  note c' = copyRules_spec [OF c] and r' = alloc_spec [OF r]
  from reads have "those (map (readRule s) refs) = Some ws" by (simp add: those_map_Some)
  with arr plain c r have dc: "deepCopy rt s rules = Some (rulesObj, s2)"
    by (simp add: deepCopy_def)
  from r' have "objects s2 rulesObj = Some (ArrayObject copies)" by blast
  then have arr2: "arrayAt s2 rulesObj = Some copies" by (simp add: arrayAt_def)
  have same: "readRule s2 a = readRule s1 a \<and> footprint s2 a = footprint s1 a"
    if "a \<in> set copies" for a
  proof (rule readRule_cong, rule ballI)
    fix x assume "x \<in> footprint s1 a"
    with that c' have "x < nextFree s1" by fastforce
    with r' show "objects s2 x = objects s1 x" by blast
  qed
  have old: "\<forall>x<nextFree s. objects s2 x = objects s x"
    using c' r' by auto
  have nf: "nextFree s1 < nextFree s2" using r' by simp
  have reads2: "map (readRule s2) copies = map Some (map (copyRule rt) (map rule.truncate ws))"
    using same c' by (simp cong: map_cong)
  define valid where "valid = filterRefsByDate clk s2 copies"
  have vsub: "set valid \<subseteq> set copies" by (simp add: valid_def filterRefsByDate_set)
  from doc have "objects s documentJson \<noteq> None"
    by (cases "objects s documentJson") (simp_all add: valueAt_def)
  with al have dlt: "documentJson < nextFree s" by (rule allocated_bound)
  have clt: "case contextObj of None \<Rightarrow> True | Some c \<Rightarrow> c < nextFree s"
  proof (cases contextObj)
    case (Some c)
    with ctx have "objects s c \<noteq> None"
      by (cases "objects s c") (simp_all add: contextAtRef_def valueAt_def)
    with al Some show ?thesis by (simp add: allocated_bound)
  qed simp
  let ?L = "case optContextLimit opts of Some l \<Rightarrow> l | None \<Rightarrow> 10000"
  let ?T = "case optTimeLimit opts of Some t \<Rightarrow> t | None \<Rightarrow> 200"
  let ?A = "case optReturnAllContexts opts of Some b \<Rightarrow> b | None \<Rightarrow> True"
  let ?rs = "filterRulesByDate clk (map (copyRule rt) (map rule.truncate ws))"
  have pure: "validateRules rt clk doc (map rule.truncate ws) ctx opts
                = forEachRule rt (leafReading clk) doc ctx ?L ?T ?A (startReading clk) 0 ?rs []"
    by (simp add: validateRules_def Let_def)
  have store: "validateRulesOnStore rt clk s documentJson rules contextObj opts
                 = forEachRuleRef rt (leafReading clk) documentJson contextObj ?L ?T ?A
                     (startReading clk) 0 valid [] s2"
    using dc arr2 by (simp add: validateRulesOnStore_def Let_def valid_def)
  have "case forEachRule rt (leafReading clk) doc ctx ?L ?T ?A (startReading clk) 0 ?rs [] of
          None \<Rightarrow>
            forEachRuleRef rt (leafReading clk) documentJson contextObj ?L ?T ?A
              (startReading clk) 0 valid [] s2 = None
        | Some res \<Rightarrow>
            (\<exists>s'. forEachRuleRef rt (leafReading clk) documentJson contextObj ?L ?T ?A
                       (startReading clk) 0 valid [] s2 = Some (res, s')
                  \<and> (\<forall>x<nextFree s. objects s' x = objects s x)
                  \<and> nextFree s' = nextFree s2 \<and> allocated s')"
  proof (rule forEachRuleRef_spec)
    show "distinct valid"
      using c' by (simp add: valid_def filterRefsByDate_distinct)
    show "\<forall>a\<in>set valid. \<forall>b\<in>set valid. a \<noteq> b \<longrightarrow> footprint s2 a \<inter> footprint s2 b = {}"
    proof (intro ballI impI)
      fix a b assume "a \<in> set valid" "b \<in> set valid" "a \<noteq> b"
      with vsub have "a \<in> set copies" "b \<in> set copies" by auto
      with c' \<open>a \<noteq> b\<close> have "footprint s1 a \<inter> footprint s1 b = {}" by blast
      with same \<open>a \<in> set copies\<close> \<open>b \<in> set copies\<close>
      show "footprint s2 a \<inter> footprint s2 b = {}" by simp
    qed
    show "\<forall>a\<in>set valid. footprint s2 a \<subseteq> {nextFree s..<nextFree s2}"
    proof
      fix a assume "a \<in> set valid"
      with vsub have a: "a \<in> set copies" by auto
      with c' have "footprint s1 a \<subseteq> {nextFree s..<nextFree s1}" by blast
      with same [OF a] nf show "footprint s2 a \<subseteq> {nextFree s..<nextFree s2}" by auto
    qed
    show "map (readRule s2) valid
            = map Some (filterRulesByDate clk (map (copyRule rt) (map rule.truncate ws)))"
      unfolding valid_def using reads2 by (rule filterRefsByDate_reads)
    show "\<forall>x<nextFree s. objects s2 x = objects s x" by (rule old)
    show "valueAt s documentJson = Some doc" by (rule doc)
    show "documentJson < nextFree s" by (rule dlt)
    show "contextAtRef s contextObj = Some ctx" by (rule ctx)
    show "case contextObj of None \<Rightarrow> True | Some c \<Rightarrow> c < nextFree s" by (rule clt)
    show "allocated s2" using al c' r' by blast
  qed
  moreover have "nextFree s \<le> nextFree s2" using c' nf by simp
  ultimately show ?thesis
    unfolding pure store by (auto split: option.splits)
qed

subsection \<open>What is written back\<close>

text \<open>
  The block leaves a rule with as many conditions as it found, so \<open>writeRule\<close> has an
  address for each of them; and where the rule object, the array of its conditions and
  the condition objects are distinct objects, the rule read after \<open>writeRule\<close> is the
  rule written.
\<close>

lemma tryRule_conditions_length:
  assumes "tryRule rt now d ctx L tlim rac st rule results = Some out"
  shows "length (conditions (case out of Inl (msg, rule') \<Rightarrow> rule'
                                       | Inr (rule', results') \<Rightarrow> rule'))
           = length (conditions rule)"
proof -
  from assms obtain conds loops0 where
    p: "processConditionsForLoops (conditions rule) [] = Some (conds, loops0)"
    by (auto simp: tryRule_def split: option.splits)
  from processConditionsForLoops_shape [OF p]
  have l: "length conds = length (conditions rule)" by (simp add: list_all2_lengthD)
  obtain tuples cc where e:
    "explodeContexts rt now d (sortLoopsByPath rt loops0) [] L st tlim
       \<lparr>count = 0, limitReached = False, timeReached = False\<rparr> = (tuples, cc)"
    by (cases "explodeContexts rt now d (sortLoopsByPath rt loops0) [] L st tlim
       \<lparr>count = 0, limitReached = False, timeReached = False\<rparr>")
  from assms l show ?thesis
    by (auto simp: tryRule_unfold [OF p e] evaluated_def discovered_def split: sum.splits if_splits)
qed

lemma fold_write_read:
  "length cas = length cs \<Longrightarrow> distinct cas \<Longrightarrow>
     map (conditionAt
            (fold (\<lambda>(ca, c) s. s\<lparr>objects := (objects s)(ca \<mapsto> ConditionObject c)\<rparr>)
               (zip cas cs) s)) cas
       = map Some cs"
proof (induction cas cs arbitrary: s rule: list_induct2)
  case Nil
  show ?case by simp
next
  case (Cons c cas y cs)
  define s0 where "s0 = s\<lparr>objects := (objects s)(c \<mapsto> ConditionObject y)\<rparr>"
  define s1 where
    "s1 = fold (\<lambda>(ca, c) s. s\<lparr>objects := (objects s)(ca \<mapsto> ConditionObject c)\<rparr>)
            (zip cas cs) s0"
  have step: "fold (\<lambda>(ca, c) s. s\<lparr>objects := (objects s)(ca \<mapsto> ConditionObject c)\<rparr>)
                (zip (c # cas) (y # cs)) s = s1"
    by (simp add: s1_def s0_def)
  from Cons.prems have "c \<notin> set (map fst (zip cas cs))"
    by (auto dest: set_zip_leftD)
  then have "objects s1 c = objects s0 c"
    unfolding s1_def by (rule fold_write_frame)
  then have "conditionAt s1 c = Some y" by (simp add: conditionAt_def s0_def)
  moreover from Cons.prems have "map (conditionAt s1) cas = map Some cs"
    unfolding s1_def by (intro Cons.IH) simp
  ultimately show ?case unfolding step by simp
qed

lemma writeRule_read:
  assumes "objects s a = Some (RuleObject w cref)" and "arrayAt s cref = Some cas"
    and "length (conditions rule') = length cas"
    and "distinct cas" and "a \<notin> set cas" and "cref \<notin> set cas" and "cref \<noteq> a"
  shows "readRule (writeRule s a rule') a = Some rule'"
proof -
  define s1 where
    "s1 = fold (\<lambda>(ca, c) s. s\<lparr>objects := (objects s)(ca \<mapsto> ConditionObject c)\<rparr>)
            (zip cas (conditions rule')) s"
  from assms(1,2) have refs: "conditionRefs s a = cas" by (simp add: conditionRefs_def)
  have w: "writeRule s a rule'
             = s1\<lparr>objects := (objects s1)(a \<mapsto> RuleObject (rule'\<lparr>conditions := []\<rparr>) cref)\<rparr>"
    using assms(1) refs by (simp add: writeRule_def s1_def Let_def)
  have "cref \<notin> set (map fst (zip cas (conditions rule')))"
    using assms(6) by (auto dest: set_zip_leftD)
  then have "objects s1 cref = objects s cref"
    unfolding s1_def by (rule fold_write_frame)
  with assms(2,7) have arr: "arrayAt (writeRule s a rule') cref = Some cas"
    by (simp add: w arrayAt_def)
  have "map (conditionAt s1) cas = map Some (conditions rule')"
    unfolding s1_def using assms(3,4) by (intro fold_write_read) simp_all
  moreover have "map (conditionAt (writeRule s a rule')) cas = map (conditionAt s1) cas"
    using assms(5) by (auto simp: w conditionAt_def)
  ultimately have "those (map (conditionAt (writeRule s a rule')) cas) = Some (conditions rule')"
    by (simp add: those_map_Some)
  with arr show ?thesis by (simp add: readRule_def w)
qed

subsection \<open>A store of the caller\<close>

text \<open>
  A document with three items, one rule with one condition on the items, and the array
  of the rules. After the call the condition of the caller is as it was; the condition of
  the copy, at the first new address, carries the placeholder.
\<close>

definition threeValues :: json where
  "threeValues = JObj [(''c'', JArr [JObj [(''d'', JNum 1)], JObj [(''d'', JNum 5)],
                                    JObj [(''d'', JNum 7)]])]"

definition countsAbove :: "json condition" where
  "countsAbove = \<lparr>ref = ''c[].d'', operator = ''>'', comparisonValue = Some (JNum 3),
                   comparisonRef = None\<rparr>"

definition callerRule :: "json workingRule" where
  "callerRule =
     \<lparr>ruleId = ''r'', ruleType = None, description = None, initialDate = None,
      endDate = None, conditions = [], conditionResultContext = None, contexts = None,
      contextLimitReached = None, timeLimitReached = None, conditionsResult = None\<rparr>"

definition callerStore :: "json store" where
  "callerStore =
     \<lparr>objects = [0 \<mapsto> ValueObject threeValues, 1 \<mapsto> ConditionObject countsAbove,
                 2 \<mapsto> ArrayObject [1], 3 \<mapsto> RuleObject callerRule 2,
                 4 \<mapsto> ArrayObject [3]],
      nextFree = 5\<rparr>"

lemma copy_is_annotated:
  "map_option (\<lambda>(r, s'). (conditionAt s' 1, map_option ref (conditionAt s' 5)))
     (validateRulesOnStore jsonRuntime stillClock callerStore 0 4 None defaultOptions)
   = Some (Some countsAbove, Some ''c[@0].d'')"
  by code_simp

lemma callerRule_truncate:
  "rule.truncate (callerRule\<lparr>conditions := [countsAbove]\<rparr>) = mkRule ''r'' [countsAbove]"
  by (simp add: callerRule_def mkRule_def rule.defs workingRule.defs)

section \<open>Concrete inputs\<close>

text \<open>
  The documents, rules, loops and options on which the engine is run below. \<open>stillNow\<close>
  is a clock that stands still and \<open>fresh\<close> the counter that \<^verbatim>\<open>validateRules\<close> creates
  for a rule.
\<close>

definition stillNow :: "nat \<Rightarrow> int" where
  "stillNow k = 0"

definition fresh :: contextCounter where
  "fresh = \<lparr>count = 0, limitReached = False, timeReached = False\<rparr>"

definition person :: json where
  "person = JObj [(''age'', JNum 22)]"

definition badRule :: "json rule" where
  "badRule = mkRule ''1'' [\<lparr>ref = ''age'', operator = ''INVALID_OPERATOR'',
                            comparisonValue = Some (JNum 22), comparisonRef = None\<rparr>]"

definition goodRule :: "json rule" where
  "goodRule = mkRule ''2'' [\<lparr>ref = ''age'', operator = ''='',
                             comparisonValue = Some (JNum 22), comparisonRef = None\<rparr>]"

definition conflictRule :: "json rule" where
  "conflictRule = mkRule ''7'' [\<lparr>ref = ''age'', operator = ''='',
                                 comparisonValue = Some (JNum 22), comparisonRef = Some ''age''\<rparr>]"

definition emptyItems :: json where
  "emptyItems = JObj [(''items'', JArr [])]"

definition absentRule :: "json rule" where
  "absentRule = mkRule ''r'' [\<lparr>ref = ''items[].x'', operator = ''does_not_exists'',
                               comparisonValue = None, comparisonRef = None\<rparr>]"

definition dollarDocument :: json where
  "dollarDocument =
     JObj [(''x$$y'', JObj [(''a'', JArr [JObj [(''b'', JArr [JNum 10, JNum 20])],
                                          JObj [(''b'', JArr [JNum 30, JNum 40])]])])]"

definition dollarRule :: "json rule" where
  "dollarRule = mkRule ''r'' [\<lparr>ref = ''x$$y.a[].b[]'', operator = ''>'',
                               comparisonValue = Some (JNum 5), comparisonRef = None\<rparr>]"

definition plainDocument :: json where
  "plainDocument =
     JObj [(''xy'', JObj [(''a'', JArr [JObj [(''b'', JArr [JNum 10, JNum 20])],
                                        JObj [(''b'', JArr [JNum 30, JNum 40])]])])]"

definition twoByTwo :: json where
  "twoByTwo = JObj [(''a'', JArr [JNum 1, JNum 2]), (''b'', JArr [JNum 3, JNum 4])]"

definition fourItems :: json where
  "fourItems = JObj [(''a'', JArr [JNum 1, JNum 2, JNum 3, JNum 4])]"

definition loopA :: loop where
  "loopA = \<lparr>objectName = ''a'', completeObjectPath = ''a'', parm = Some ''@0''\<rparr>"

definition loopB :: loop where
  "loopB = \<lparr>objectName = ''b'', completeObjectPath = ''b'', parm = Some ''@1''\<rparr>"

definition smallerRule :: "json rule" where
  "smallerRule = mkRule ''r'' [\<lparr>ref = ''a[]'', operator = ''<'', comparisonValue = None,
                                comparisonRef = Some ''b[]''\<rparr>]"

definition sharedName :: json where
  "sharedName =
     JObj [(''x'', JObj [(''items'', JArr [JObj [(''a'', JNum 1)]])]),
           (''items'', JArr [JObj [(''b'', JNum 1), (''c'', JNum 2)],
                             JObj [(''b'', JNum 5), (''c'', JNum 5)],
                             JObj [(''b'', JNum 3), (''c'', JNum 4)]])]"

definition firstOfOther :: "json condition" where
  "firstOfOther = \<lparr>ref = ''x.items[].a'', operator = ''exists'', comparisonValue = None,
                    comparisonRef = None\<rparr>"

definition sameItem :: "json condition" where
  "sameItem = \<lparr>ref = ''items[].b'', operator = ''='', comparisonValue = None,
                comparisonRef = Some ''items[].c''\<rparr>"

definition lateBadRule :: "json rule" where
  "lateBadRule = mkRule ''3'' [\<lparr>ref = ''age'', operator = ''='',
                                comparisonValue = Some (JNum 22), comparisonRef = None\<rparr>,
                               \<lparr>ref = ''age'', operator = ''INVALID_OPERATOR'',
                                comparisonValue = Some (JNum 22), comparisonRef = None\<rparr>]"

definition emptyConflictRule :: "json rule" where
  "emptyConflictRule = mkRule ''4'' [\<lparr>ref = ''items[].x'', operator = ''='',
                                      comparisonValue = Some (JNum 1),
                                      comparisonRef = Some ''items[].y''\<rparr>]"

definition mixedValues :: json where
  "mixedValues = JObj [(''c'', JArr [JObj [(''d'', JStr ''a1'')], JObj [(''d'', JNum 5)]])]"

definition containsOne :: "json rule" where
  "containsOne = mkRule ''m'' [\<lparr>ref = ''c[].d'', operator = ''contains'',
                                comparisonValue = Some (JStr ''1''), comparisonRef = None\<rparr>]"

definition aboveThree :: "json rule" where
  "aboveThree = mkRule ''r'' [countsAbove]"

definition firstOnly :: options where
  "firstOnly = \<lparr>optContextLimit = None, optTimeLimit = None, optReturnAllContexts = Some False\<rparr>"

subsection \<open>The two budget flags\<close>

text \<open>
  The time check can trip before the context limit is reached: \<^verbatim>\<open>limitReached\<close> then
  stays false although the array has more items than the limit allows. Here the array
  has 4 items, the limit is 2, and the clock is past the time limit at the first check.
\<close>

lemma time_flag_trips_first:
  "explodeContexts jsonRuntime (\<lambda>k. 1) fourItems [loopA] [] 2 0 0 fresh
     = ([], \<lparr>count = 1, limitReached = False, timeReached = True\<rparr>)"
  by code_simp

section \<open>Properties of the engine\<close>

subsection \<open>Placeholders and the sorted loop list\<close>

text \<open>
  Claim C1 says that path instantiation replaces, for the loop at position \<open>k\<close> of the
  sorted list, that loop's own placeholder by \<^verbatim>\<open>contextTuple[k]\<close>, so that each array
  receives the index chosen for it. The code replaces the token \<^verbatim>\<open>[@k]\<close> of the
  position instead. In the rule below \<^verbatim>\<open>referencias\<close> is discovered first (placeholder
  \<^verbatim>\<open>@0\<close>) and \<^verbatim>\<open>pessoas\<close> second (\<^verbatim>\<open>@1\<close>); sorting puts \<^verbatim>\<open>pessoas\<close> first. In the
  tuple \<open>[0, 1]\<close> the index 0 was chosen for \<^verbatim>\<open>pessoas\<close> and 1 for \<^verbatim>\<open>referencias\<close>, yet
  the instantiated paths are \<^verbatim>\<open>referencias.0\<close> and \<^verbatim>\<open>pessoas.1\<close>. The pair
  \<^verbatim>\<open>referencias.1\<close>, \<^verbatim>\<open>pessoas.0\<close> (10 < 20) is never examined and the rule, which it
  satisfies, is not reported.
\<close>

theorem sorted_loops_receive_foreign_index:
  "(let conds = [\<lparr>ref = ''referencias[].idadeReferencia'', operator = ''<'',
                   comparisonValue = None, comparisonRef = Some ''pessoas[].idade''\<rparr>];
        doc = JObj [(''pessoas'', JArr [JObj [(''idade'', JNum 20)]]),
                    (''referencias'', JArr [JObj [(''idadeReferencia'', JNum 30)],
                                           JObj [(''idadeReferencia'', JNum 10)]])]
    in case processConditionsForLoops conds [] of
         None \<Rightarrow> False
       | Some (annotated, found) \<Rightarrow>
           let loops = sortLoopsByPath jsonRuntime found
           in map ref annotated = [''referencias[@0].idadeReferencia'']
              \<and> map comparisonRef annotated = [Some ''pessoas[@1].idade'']
              \<and> map completeObjectPath loops = [''pessoas'', ''referencias'']
              \<and> map parm loops = [Some ''@1'', Some ''@0'']
              \<and> fst (explodeContexts jsonRuntime (\<lambda>k. 0) doc loops [] 10000 0 200
                        \<lparr>count = 0, limitReached = False, timeReached = False\<rparr>)
                  = [[0, 0], [0, 1]]
              \<and> replaceContextValues (hd annotated) loops [0, 1]
                  = \<lparr>ref = ''referencias.0.idadeReferencia'', operator = ''<'',
                     comparisonValue = None, comparisonRef = Some ''pessoas.1.idade''\<rparr>
              \<and> jsonGet doc ''referencias.1.idadeReferencia'' = Some (JNum 10)
              \<and> jsonGet doc ''pessoas.0.idade'' = Some (JNum 20)
              \<and> validateRules jsonRuntime stillClock doc [mkRule ''r'' conds] None defaultOptions
                  = Some [])"
  by code_simp

subsection \<open>A dollar sign in the path of a nested array\<close>

text \<open>
  Claim C2 says that two loops over arrays of lengths \<open>m\<close> and \<open>n\<close> give the \<open>m * n\<close>
  index pairs in row-major order. For a nested array the code rewrites the path of the
  inner loop with \<^verbatim>\<open>replace\<close> and passes the path of the outer loop as the replacement
  text, where the runtime expands \<^verbatim>\<open>$$\<close> to one dollar sign. In the document below
  the array \<^verbatim>\<open>x$$y.a\<close> has 2 items and each of them an array \<^verbatim>\<open>b\<close> of 2 items. The
  path of the inner loop becomes \<^verbatim>\<open>x$y.a.0.b\<close>, where the document has nothing: no tuple
  is generated, no flag is set, and the rule, which all four values satisfy, is not
  reported. On the same document with the key \<^verbatim>\<open>xy\<close> the four tuples are generated.
\<close>

theorem dollar_path_generates_no_context:
  "(case processConditionsForLoops (conditions dollarRule) [] of
      None \<Rightarrow> False
    | Some (annotated, found) \<Rightarrow>
        let loops = sortLoopsByPath jsonRuntime found
        in map completeObjectPath loops = [''x$$y.a'', ''x$$y.a[@0].b'']
           \<and> map parm loops = [Some ''@0'', Some ''@1'']
           \<and> jsonLoopItemsLength (jsonGet dollarDocument ''x$$y.a'') = 2
           \<and> jsonLoopItemsLength (jsonGet dollarDocument ''x$$y.a.0.b'') = 2
           \<and> jsonLoopItemsLength (jsonGet dollarDocument ''x$$y.a.1.b'') = 2
           \<and> map completeObjectPath (newLoops (hd loops) 0 (tl loops)) = [''x$y.a.0.b'']
           \<and> jsonGet dollarDocument ''x$y.a.0.b'' = None
           \<and> explodeContexts jsonRuntime stillNow dollarDocument loops [] 10000 0 200 fresh
               = ([], \<lparr>count = 0, limitReached = False, timeReached = False\<rparr>))
   \<and> validateRules jsonRuntime stillClock dollarDocument [dollarRule] None defaultOptions
       = Some []
   \<and> fst (explodeContexts jsonRuntime stillNow plainDocument
             [\<lparr>objectName = ''a'', completeObjectPath = ''xy.a'', parm = Some ''@0''\<rparr>,
              \<lparr>objectName = ''b'', completeObjectPath = ''xy.a[@0].b'', parm = Some ''@1''\<rparr>]
             [] 10000 0 200 fresh)
       = [[0, 0], [0, 1], [1, 0], [1, 1]]"
  by code_simp

subsection \<open>The context limit inside a row\<close>

text \<open>
  Claim C3 says that when a budget flag trips \<^verbatim>\<open>explodeContexts\<close> returns the tuples
  generated so far. With two loops over arrays of 2 items and the limit 3, the tuples
  \<open>[0, 0]\<close>, \<open>[0, 1]\<close> and \<open>[1, 0]\<close> are generated within the limit and the fourth trips
  the flag. The inner call returns \<open>[1, 0]\<close>, and the outer call, which copies the tuples
  of an inner call only while no flag is set, drops it: 2 tuples are returned. With one
  loop over 4 items and the same limit, the 3 tuples generated within the limit are
  returned. Through \<^verbatim>\<open>validateRules\<close> the pair \<open>a[1]\<close>, \<open>b[0]\<close>, which satisfies the rule,
  is not among the reported contexts.
\<close>

theorem partial_row_is_dropped:
  "explodeContexts jsonRuntime stillNow twoByTwo [loopA, loopB] [] 3 0 200 fresh
     = ([[0, 0], [0, 1]], \<lparr>count = 4, limitReached = True, timeReached = False\<rparr>)
   \<and> explodeContexts jsonRuntime stillNow twoByTwo (newLoops loopA 1 [loopB]) [1] 3 0 200
        \<lparr>count = 2, limitReached = False, timeReached = False\<rparr>
       = ([[1, 0]], \<lparr>count = 4, limitReached = True, timeReached = False\<rparr>)
   \<and> explodeContexts jsonRuntime stillNow fourItems [loopA] [] 3 0 200 fresh
       = ([[0], [1], [2]], \<lparr>count = 4, limitReached = True, timeReached = False\<rparr>)
   \<and> map_option snd (processConditionsForLoops (conditions smallerRule) [])
       = Some [loopA, loopB]
   \<and> jsonGet twoByTwo ''a.1'' = Some (JNum 2) \<and> jsonGet twoByTwo ''b.0'' = Some (JNum 3)
   \<and> map_option (map (\<lambda>e. (keyword e,
                              case resultConditions e of
                                Some (PerContext evs) \<Rightarrow>
                                  map (\<lambda>ev. map (\<lambda>v. (instancePath v, detailComparisonValue v))
                                               (conditionValues ev)) evs
                              | _ \<Rightarrow> [])))
        (validateRules jsonRuntime stillClock twoByTwo [smallerRule] None
           \<lparr>optContextLimit = Some 3, optTimeLimit = None, optReturnAllContexts = None\<rparr>)
       = Some [(''conditional'', [[(''a.0'', Some (JNum 3))], [(''a.0'', Some (JNum 4))]]),
               (''context_limit'', [])]"
  by code_simp

subsection \<open>A rule with a loop and no context\<close>

text \<open>
  Claim C4 says that a rule with a loop is evaluated once per generated context, so that
  with no context it is not reported. The rule below loops over \<^verbatim>\<open>items\<close>, which is
  empty: discovery finds the loop and no context is generated. The code then evaluates
  the annotated conditions as they are, with the placeholder in the path; nothing exists
  at \<^verbatim>\<open>items[@0].x\<close>, the operator \<^verbatim>\<open>does_not_exists\<close> holds, and the rule is reported
  with that path.
\<close>

theorem rule_without_context_is_reported:
  "map_option snd (processConditionsForLoops (conditions (copyRule jsonRuntime absentRule)) [])
     = Some [\<lparr>objectName = ''items'', completeObjectPath = ''items'', parm = Some ''@0''\<rparr>]
   \<and> jsonLoopItemsLength (jsonGet emptyItems ''items'') = 0
   \<and> explodeContexts jsonRuntime stillNow emptyItems
        [\<lparr>objectName = ''items'', completeObjectPath = ''items'', parm = Some ''@0''\<rparr>]
        [] 10000 0 200 fresh
       = ([], \<lparr>count = 0, limitReached = False, timeReached = False\<rparr>)
   \<and> validateRules jsonRuntime stillClock emptyItems [absentRule] None defaultOptions
       = Some [\<lparr>resultId = ''r'', resultType = None, message = None,
                resultConditions = Some (Single
                  \<lparr>result = True,
                   conditionValues = [\<lparr>instancePath = ''items[@0].x'', instancePathValue = None,
                                        detailOperator = ''does_not_exists'',
                                        detailComparisonValue = None\<rparr>]\<rparr>),
                keyword = ''conditional'', errors = None\<rparr>]"
  by code_simp

subsection \<open>Two arrays with the same last segment\<close>

text \<open>
  Claim C5 says that two arrays whose paths end in the same segment, such as
  \<^verbatim>\<open>a.items[]\<close> and \<^verbatim>\<open>b.items[]\<close>, each get a loop descriptor. The code creates one:
  when \<^verbatim>\<open>a.items\<close> is discovered, the rewriting of every \<^verbatim>\<open>items[]\<close> in every field also
  turns \<^verbatim>\<open>b.items[]\<close> into \<^verbatim>\<open>b.items[@0]\<close>, so the second array is never discovered,
  its references are bound to the loop of the first, and no warning is written.
\<close>

theorem same_name_arrays_one_loop:
  "processConditionsForLoops
     [\<lparr>ref = ''a.items[].x'', operator = ''='', comparisonValue = (None :: json option),
       comparisonRef = Some ''b.items[].y''\<rparr>] []
   = Some ([\<lparr>ref = ''a.items[@0].x'', operator = ''='', comparisonValue = None,
             comparisonRef = Some ''b.items[@0].y''\<rparr>],
           [\<lparr>objectName = ''items'', completeObjectPath = ''a.items'', parm = Some ''@0''\<rparr>])
   \<and> snd (validateArrayReferences
            [\<lparr>objectName = ''items'', completeObjectPath = ''a.items'', parm = Some ''@0''\<rparr>]
            (copyRule jsonRuntime (mkRule ''r'' []))) = None"
  by code_simp

subsection \<open>An array bound to the loop of another\<close>

text \<open>
  Claim C6 says that when the \<^verbatim>\<open>ref\<close> and the \<^verbatim>\<open>comparisonRef\<close> of a condition refer to
  the same array, discovery creates one loop descriptor for that path and the contexts
  are as many as that array has items. In the rule below the first condition refers to
  \<^verbatim>\<open>x.items\<close> and the second, in both fields, to \<^verbatim>\<open>items\<close>. When \<^verbatim>\<open>x.items\<close> is
  discovered, the rewriting of every \<^verbatim>\<open>items[]\<close> in every field also rewrites the second
  condition, so no descriptor is created for \<^verbatim>\<open>items\<close>: the only loop is the one of
  \<^verbatim>\<open>x.items\<close>, which has 1 item, and 1 context is generated although \<^verbatim>\<open>items\<close> has 3.
  The item \<^verbatim>\<open>items.1\<close>, where the two fields are equal, is never examined, and the rule
  is not reported; the second condition alone is reported for that item.
\<close>

theorem shared_name_binds_foreign_loop:
  "processConditionsForLoops [firstOfOther, sameItem] []
     = Some ([\<lparr>ref = ''x.items[@0].a'', operator = ''exists'', comparisonValue = None,
               comparisonRef = None\<rparr>,
              \<lparr>ref = ''items[@0].b'', operator = ''='', comparisonValue = None,
               comparisonRef = Some ''items[@0].c''\<rparr>],
             [\<lparr>objectName = ''items'', completeObjectPath = ''x.items'', parm = Some ''@0''\<rparr>])
   \<and> jsonLoopItemsLength (jsonGet sharedName ''items'') = 3
   \<and> jsonLoopItemsLength (jsonGet sharedName ''x.items'') = 1
   \<and> fst (explodeContexts jsonRuntime stillNow sharedName
             [\<lparr>objectName = ''items'', completeObjectPath = ''x.items'', parm = Some ''@0''\<rparr>]
             [] 10000 0 200 fresh) = [[0]]
   \<and> jsonGet sharedName ''items.1.b'' = Some (JNum 5)
   \<and> jsonGet sharedName ''items.1.c'' = Some (JNum 5)
   \<and> validateRules jsonRuntime stillClock sharedName [mkRule ''r'' [firstOfOther, sameItem]]
        None defaultOptions = Some []
   \<and> map_option (map (\<lambda>e. case resultConditions e of
                              Some (PerContext evs) \<Rightarrow>
                                map (\<lambda>ev. map instancePath (conditionValues ev)) evs
                            | _ \<Rightarrow> []))
        (validateRules jsonRuntime stillClock sharedName [mkRule ''r'' [sameItem]]
           None defaultOptions)
       = Some [[[''items.1.b'']]]"
  by code_simp

subsection \<open>Errors stay inside their rule\<close>

text \<open>
  Claim C7. The result of \<^verbatim>\<open>validateRules\<close> is the concatenation, over the rules that
  passed the date filter, of the entries of each rule, which depend on that rule alone
  (and on its clock readings): no rule changes the outcome of a sibling, and nothing that
  a rule throws leaves the call. The call returns whenever no path of a rule contains a
  dollar sign. When the \<^verbatim>\<open>try\<close> block of a rule throws, the entries of the rule are the
  single entry of the \<^verbatim>\<open>catch\<close> block, with the id of the rule, the keyword
  \<^verbatim>\<open>conditional\<close> and an \<^verbatim>\<open>errors\<close> list of one entry that carries the cause and the
  context. The block throws exactly when the conjunction of a context meets an error and
  the loop over the contexts reaches it. In particular: let the condition at index \<open>i\<close>
  of the rule carry both \<^verbatim>\<open>comparisonValue\<close> and \<^verbatim>\<open>comparisonRef\<close>, or have an operator
  outside the supported set and a left operand that is defined in the context \<open>t\<close>; when
  the conditions before it pass in \<open>t\<close> and the loop over the contexts reaches \<open>t\<close> (all
  contexts are wanted, or no earlier context passes), the only entry of the rule is the
  entry of the \<^verbatim>\<open>catch\<close> block. The same holds for the conditions evaluated as they are
  when no context was generated.
\<close>

theorem rule_error_is_caught:
  "validateRules rt clk d rules contextObj opts
     = map_option concat
         (those (map (\<lambda>(k, r). ruleEntries rt (leafReading clk k) d contextObj
                                (case optContextLimit opts of Some l \<Rightarrow> l | None \<Rightarrow> 10000)
                                (case optTimeLimit opts of Some t \<Rightarrow> t | None \<Rightarrow> 200)
                                (case optReturnAllContexts opts of Some b \<Rightarrow> b | None \<Rightarrow> True)
                                (startReading clk) r)
                   (enumerate 0 (filterRulesByDate clk (map (copyRule rt) rules)))))
   \<and> ((\<forall>x\<in>set rules. \<forall>c\<in>set (conditions x). dollarFree c)
        \<longrightarrow> validateRules rt clk d rules contextObj opts \<noteq> None)
   \<and> (tryRule rt now d contextObj L tlim rac st r [] = Some (Inl (msg, r'))
        \<longrightarrow> ruleEntries rt now d contextObj L tlim rac st r = Some [errorResult r msg])
   \<and> resultId (errorResult r msg) = ruleId r
   \<and> keyword (errorResult r msg) = ''conditional''
   \<and> errors (errorResult r msg)
       = Some [\<lparr>cause = msg,
                 errContext = ''Error occurred while processing rule ['' @ ruleId r @ '']''\<rparr>]
   \<and> (processConditionsForLoops (conditions r) [] = Some (conds, unsorted)
        \<and> explodeContexts rt now d (sortLoopsByPath rt unsorted) [] L st tlim
             \<lparr>count = 0, limitReached = False, timeReached = False\<rparr> = (tuples, cc)
        \<longrightarrow> (\<exists>out. tryRule rt now d contextObj L tlim rac st r [] = Some out
                   \<and> (isl out \<longleftrightarrow> ruleThrows rt d contextObj rac conds
                                      (sortLoopsByPath rt unsorted) tuples)))
   \<and> (processConditionsForLoops (conditions r) [] = Some (conds, unsorted)
        \<and> explodeContexts rt now d (sortLoopsByPath rt unsorted) [] L st tlim
             \<lparr>count = 0, limitReached = False, timeReached = False\<rparr> = (tpre @ t # tpost, cc)
        \<and> (rac \<or> list_all (\<lambda>u. \<not> list_all (passes rt d contextObj)
                                       (inContext conds (sortLoopsByPath rt unsorted) u)) tpre)
        \<and> i < length (conditions r)
        \<and> list_all (passes rt d contextObj)
             (take i (inContext conds (sortLoopsByPath rt unsorted) t))
        \<and> (conflicting (conditions r ! i)
            \<or> (operator (conditions r ! i) \<notin> set supportedOperators
               \<and> getValueWithContext rt d
                    (ref (inContext conds (sortLoopsByPath rt unsorted) t ! i)) contextObj \<noteq> None))
        \<longrightarrow> ruleEntries rt now d contextObj L tlim rac st r
             = Some [errorResult r (''Failed to evaluate conditions in one context in rule [''
                                    @ ruleId r @ ''].'')])
   \<and> (processConditionsForLoops (conditions r) [] = Some (conds, unsorted)
        \<and> explodeContexts rt now d (sortLoopsByPath rt unsorted) [] L st tlim
             \<lparr>count = 0, limitReached = False, timeReached = False\<rparr> = ([], cc)
        \<and> i < length (conditions r)
        \<and> list_all (passes rt d contextObj) (take i conds)
        \<and> (conflicting (conditions r ! i)
            \<or> (operator (conditions r ! i) \<notin> set supportedOperators
               \<and> getValueWithContext rt d (ref (conds ! i)) contextObj \<noteq> None))
        \<longrightarrow> ruleEntries rt now d contextObj L tlim rac st r
             = Some [errorResult r ''Failed to evaluate conditions in one context.''])"
proof (intro conjI impI)
  show "validateRules rt clk d rules contextObj opts
     = map_option concat
         (those (map (\<lambda>(k, r). ruleEntries rt (leafReading clk k) d contextObj
                                (case optContextLimit opts of Some l \<Rightarrow> l | None \<Rightarrow> 10000)
                                (case optTimeLimit opts of Some t \<Rightarrow> t | None \<Rightarrow> 200)
                                (case optReturnAllContexts opts of Some b \<Rightarrow> b | None \<Rightarrow> True)
                                (startReading clk) r)
                   (enumerate 0 (filterRulesByDate clk (map (copyRule rt) rules)))))"
    by (rule validateRules_entries)
next
  assume "\<forall>x\<in>set rules. \<forall>c\<in>set (conditions x). dollarFree c"
  then show "validateRules rt clk d rules contextObj opts \<noteq> None"
    by (rule validateRules_returns)
next
  assume "tryRule rt now d contextObj L tlim rac st r [] = Some (Inl (msg, r'))"
  then show "ruleEntries rt now d contextObj L tlim rac st r = Some [errorResult r msg]"
    by (rule ruleEntries_caught)
next
  show "resultId (errorResult r msg) = ruleId r" by (simp add: errorResult_def)
next
  show "keyword (errorResult r msg) = ''conditional''" by (simp add: errorResult_def)
next
  show "errors (errorResult r msg)
       = Some [\<lparr>cause = msg,
                 errContext = ''Error occurred while processing rule ['' @ ruleId r @ '']''\<rparr>]"
    by (simp add: errorResult_def)
next
  assume "processConditionsForLoops (conditions r) [] = Some (conds, unsorted)
        \<and> explodeContexts rt now d (sortLoopsByPath rt unsorted) [] L st tlim
             \<lparr>count = 0, limitReached = False, timeReached = False\<rparr> = (tuples, cc)"
  then have p: "processConditionsForLoops (conditions r) [] = Some (conds, unsorted)"
    and e: "explodeContexts rt now d (sortLoopsByPath rt unsorted) [] L st tlim
             \<lparr>count = 0, limitReached = False, timeReached = False\<rparr> = (tuples, cc)"
    by simp_all
  from tryRule_throws [OF p e, of contextObj rac "[]"]
  show "\<exists>out. tryRule rt now d contextObj L tlim rac st r [] = Some out
                   \<and> (isl out \<longleftrightarrow> ruleThrows rt d contextObj rac conds
                                      (sortLoopsByPath rt unsorted) tuples)"
    by blast
next
  assume h: "processConditionsForLoops (conditions r) [] = Some (conds, unsorted)
        \<and> explodeContexts rt now d (sortLoopsByPath rt unsorted) [] L st tlim
             \<lparr>count = 0, limitReached = False, timeReached = False\<rparr> = (tpre @ t # tpost, cc)
        \<and> (rac \<or> list_all (\<lambda>u. \<not> list_all (passes rt d contextObj)
                                       (inContext conds (sortLoopsByPath rt unsorted) u)) tpre)
        \<and> i < length (conditions r)
        \<and> list_all (passes rt d contextObj)
             (take i (inContext conds (sortLoopsByPath rt unsorted) t))
        \<and> (conflicting (conditions r ! i)
            \<or> (operator (conditions r ! i) \<notin> set supportedOperators
               \<and> getValueWithContext rt d
                    (ref (inContext conds (sortLoopsByPath rt unsorted) t ! i)) contextObj \<noteq> None))"
  show "ruleEntries rt now d contextObj L tlim rac st r
             = Some [errorResult r (''Failed to evaluate conditions in one context in rule [''
                                    @ ruleId r @ ''].'')]"
    by (rule ruleEntries_raising_context
               [OF h [THEN conjunct1] h [THEN conjunct2, THEN conjunct1]
                   h [THEN conjunct2, THEN conjunct2, THEN conjunct1]
                   h [THEN conjunct2, THEN conjunct2, THEN conjunct2, THEN conjunct1]
                   h [THEN conjunct2, THEN conjunct2, THEN conjunct2, THEN conjunct2,
                      THEN conjunct1]
                   h [THEN conjunct2, THEN conjunct2, THEN conjunct2, THEN conjunct2,
                      THEN conjunct2]])
next
  assume h: "processConditionsForLoops (conditions r) [] = Some (conds, unsorted)
        \<and> explodeContexts rt now d (sortLoopsByPath rt unsorted) [] L st tlim
             \<lparr>count = 0, limitReached = False, timeReached = False\<rparr> = ([], cc)
        \<and> i < length (conditions r)
        \<and> list_all (passes rt d contextObj) (take i conds)
        \<and> (conflicting (conditions r ! i)
            \<or> (operator (conditions r ! i) \<notin> set supportedOperators
               \<and> getValueWithContext rt d (ref (conds ! i)) contextObj \<noteq> None))"
  show "ruleEntries rt now d contextObj L tlim rac st r
             = Some [errorResult r ''Failed to evaluate conditions in one context.'']"
    by (rule ruleEntries_raising_simple
               [OF h [THEN conjunct1] h [THEN conjunct2, THEN conjunct1]
                   h [THEN conjunct2, THEN conjunct2, THEN conjunct1]
                   h [THEN conjunct2, THEN conjunct2, THEN conjunct2, THEN conjunct1]
                   h [THEN conjunct2, THEN conjunct2, THEN conjunct2, THEN conjunct2]])
qed

theorem rule_error_is_caught_witness:
  "processConditionsForLoops (conditions (copyRule jsonRuntime lateBadRule)) []
     = Some (conditions (copyRule jsonRuntime lateBadRule), [])
   \<and> explodeContexts jsonRuntime stillNow person (sortLoopsByPath jsonRuntime []) [] 10000 0 200
        \<lparr>count = 0, limitReached = False, timeReached = False\<rparr>
       = ([[]], \<lparr>count = 1, limitReached = False, timeReached = False\<rparr>)
   \<and> list_all (passes jsonRuntime person None)
        (take 1 (inContext (conditions (copyRule jsonRuntime lateBadRule))
                   (sortLoopsByPath jsonRuntime []) []))
   \<and> operator (conditions (copyRule jsonRuntime lateBadRule) ! 1) = ''INVALID_OPERATOR''
   \<and> ''INVALID_OPERATOR'' \<notin> set supportedOperators
   \<and> getValueWithContext jsonRuntime person
        (ref (inContext (conditions (copyRule jsonRuntime lateBadRule))
                (sortLoopsByPath jsonRuntime []) [] ! 1)) None = Some (JNum 22)
   \<and> ruleEntries jsonRuntime stillNow person None 10000 200 False 0
        (copyRule jsonRuntime lateBadRule)
       = Some [\<lparr>resultId = ''3'', resultType = None, message = None,
                resultConditions = Some (Items []), keyword = ''conditional'',
                errors = Some [\<lparr>cause = ''Failed to evaluate conditions in one context in rule [3].'',
                                errContext = ''Error occurred while processing rule [3]''\<rparr>]\<rparr>]
   \<and> conflicting (conditions (copyRule jsonRuntime emptyConflictRule) ! 0)
   \<and> fst (explodeContexts jsonRuntime stillNow emptyItems
             (sortLoopsByPath jsonRuntime
                [\<lparr>objectName = ''items'', completeObjectPath = ''items'', parm = Some ''@0''\<rparr>])
             [] 10000 0 200 \<lparr>count = 0, limitReached = False, timeReached = False\<rparr>) = []
   \<and> ruleEntries jsonRuntime stillNow emptyItems None 10000 200 True 0
        (copyRule jsonRuntime emptyConflictRule)
       = Some [\<lparr>resultId = ''4'', resultType = None, message = None,
                resultConditions = Some (Items []), keyword = ''conditional'',
                errors = Some [\<lparr>cause = ''Failed to evaluate conditions in one context.'',
                                errContext = ''Error occurred while processing rule [4]''\<rparr>]\<rparr>]
   \<and> validateRules jsonRuntime stillClock person [badRule, goodRule, conflictRule] None
        defaultOptions
       = Some [\<lparr>resultId = ''1'', resultType = None, message = None,
                resultConditions = Some (Items []), keyword = ''conditional'',
                errors = Some [\<lparr>cause = ''Failed to evaluate conditions in one context in rule [1].'',
                                errContext = ''Error occurred while processing rule [1]''\<rparr>]\<rparr>,
               \<lparr>resultId = ''2'', resultType = None, message = None,
                resultConditions = Some (PerContext
                  [\<lparr>result = True,
                    conditionValues = [\<lparr>instancePath = ''age'', instancePathValue = Some (JNum 22),
                                         detailOperator = ''='',
                                         detailComparisonValue = Some (JNum 22)\<rparr>]\<rparr>]),
                keyword = ''conditional'', errors = None\<rparr>,
               \<lparr>resultId = ''7'', resultType = None, message = None,
                resultConditions = Some (Items []), keyword = ''conditional'',
                errors = Some [\<lparr>cause = ''Failed to evaluate conditions in one context in rule [7].'',
                                errContext = ''Error occurred while processing rule [7]''\<rparr>]\<rparr>]"
proof -
  let ?r = "copyRule jsonRuntime lateBadRule"
  let ?e = "copyRule jsonRuntime emptyConflictRule"
  let ?fresh = "\<lparr>count = 0, limitReached = False, timeReached = False\<rparr>"
  let ?items = "[\<lparr>objectName = ''items'', completeObjectPath = ''items'', parm = Some ''@0''\<rparr>]"
  have p: "processConditionsForLoops (conditions ?r) [] = Some (conditions ?r, [])"
    by code_simp
  have e: "explodeContexts jsonRuntime stillNow person (sortLoopsByPath jsonRuntime []) []
             10000 0 200 ?fresh
           = ([[]], \<lparr>count = 1, limitReached = False, timeReached = False\<rparr>)"
    by code_simp
  have a: "list_all (passes jsonRuntime person None)
             (take 1 (inContext (conditions ?r) (sortLoopsByPath jsonRuntime []) []))"
    by code_simp
  have o: "operator (conditions ?r ! 1) = ''INVALID_OPERATOR''" by code_simp
  have n: "''INVALID_OPERATOR'' \<notin> set supportedOperators" by code_simp
  have g: "getValueWithContext jsonRuntime person
             (ref (inContext (conditions ?r) (sortLoopsByPath jsonRuntime []) [] ! 1)) None
           = Some (JNum 22)"
    by code_simp
  have l: "(1::nat) < length (conditions ?r)" by code_simp
  have h: "processConditionsForLoops (conditions ?r) [] = Some (conditions ?r, [])
        \<and> explodeContexts jsonRuntime stillNow person (sortLoopsByPath jsonRuntime []) []
             10000 0 200 ?fresh
            = ([] @ [] # [], \<lparr>count = 1, limitReached = False, timeReached = False\<rparr>)
        \<and> (False \<or> list_all (\<lambda>u. \<not> list_all (passes jsonRuntime person None)
                                       (inContext (conditions ?r)
                                          (sortLoopsByPath jsonRuntime []) u)) [])
        \<and> 1 < length (conditions ?r)
        \<and> list_all (passes jsonRuntime person None)
             (take 1 (inContext (conditions ?r) (sortLoopsByPath jsonRuntime []) []))
        \<and> (conflicting (conditions ?r ! 1)
            \<or> (operator (conditions ?r ! 1) \<notin> set supportedOperators
               \<and> getValueWithContext jsonRuntime person
                    (ref (inContext (conditions ?r) (sortLoopsByPath jsonRuntime []) [] ! 1))
                    None \<noteq> None))"
    using p e a o n g l by simp
  have 1: "ruleEntries jsonRuntime stillNow person None 10000 200 False 0 ?r
             = Some [errorResult ?r (''Failed to evaluate conditions in one context in rule [''
                                     @ ruleId ?r @ ''].'')]"
    using rule_error_is_caught
            [where rt = jsonRuntime and now = stillNow and d = person and contextObj = None
               and L = 10000 and tlim = 200 and rac = False and st = 0 and r = ?r
               and conds = "conditions ?r" and unsorted = "[]" and tpre = "[]" and t = "[]"
               and tpost = "[]" and i = 1
               and cc = "\<lparr>count = 1, limitReached = False, timeReached = False\<rparr>",
             THEN conjunct2, THEN conjunct2, THEN conjunct2, THEN conjunct2, THEN conjunct2,
             THEN conjunct2, THEN conjunct2, THEN conjunct1]
          h
    by (rule mp)
  have 2: "errorResult ?r (''Failed to evaluate conditions in one context in rule [''
                           @ ruleId ?r @ ''].'')
           = \<lparr>resultId = ''3'', resultType = None, message = None,
              resultConditions = Some (Items []), keyword = ''conditional'',
              errors = Some [\<lparr>cause = ''Failed to evaluate conditions in one context in rule [3].'',
                              errContext = ''Error occurred while processing rule [3]''\<rparr>]\<rparr>"
    by code_simp
  have c: "conflicting (conditions ?e ! 0)" by code_simp
  have x: "fst (explodeContexts jsonRuntime stillNow emptyItems
                  (sortLoopsByPath jsonRuntime ?items) [] 10000 0 200 ?fresh) = []"
    by code_simp
  have h': "processConditionsForLoops (conditions ?e) []
              = Some ([\<lparr>ref = ''items[@0].x'', operator = ''='',
                        comparisonValue = Some (JNum 1),
                        comparisonRef = Some ''items[@0].y''\<rparr>], ?items)
        \<and> explodeContexts jsonRuntime stillNow emptyItems (sortLoopsByPath jsonRuntime ?items) []
             10000 0 200 ?fresh = ([], ?fresh)
        \<and> 0 < length (conditions ?e)
        \<and> list_all (passes jsonRuntime emptyItems None)
             (take 0 [\<lparr>ref = ''items[@0].x'', operator = ''='',
                        comparisonValue = Some (JNum 1),
                        comparisonRef = Some ''items[@0].y''\<rparr>])
        \<and> (conflicting (conditions ?e ! 0)
            \<or> (operator (conditions ?e ! 0) \<notin> set supportedOperators
               \<and> getValueWithContext jsonRuntime emptyItems
                    (ref ([\<lparr>ref = ''items[@0].x'', operator = ''='',
                             comparisonValue = Some (JNum 1),
                             comparisonRef = Some ''items[@0].y''\<rparr>] ! 0)) None \<noteq> None))"
    by code_simp
  have 3: "ruleEntries jsonRuntime stillNow emptyItems None 10000 200 True 0 ?e
             = Some [errorResult ?e ''Failed to evaluate conditions in one context.'']"
    using rule_error_is_caught
            [where rt = jsonRuntime and now = stillNow and d = emptyItems and contextObj = None
               and L = 10000 and tlim = 200 and rac = True and st = 0 and r = ?e
               and conds = "[\<lparr>ref = ''items[@0].x'', operator = ''='',
                              comparisonValue = Some (JNum 1),
                              comparisonRef = Some ''items[@0].y''\<rparr>]"
               and unsorted = ?items and i = 0 and cc = ?fresh,
             THEN conjunct2, THEN conjunct2, THEN conjunct2, THEN conjunct2, THEN conjunct2,
             THEN conjunct2, THEN conjunct2, THEN conjunct2]
          h'
    by (rule mp)
  have 4: "errorResult ?e ''Failed to evaluate conditions in one context.''
           = \<lparr>resultId = ''4'', resultType = None, message = None,
              resultConditions = Some (Items []), keyword = ''conditional'',
              errors = Some [\<lparr>cause = ''Failed to evaluate conditions in one context.'',
                              errContext = ''Error occurred while processing rule [4]''\<rparr>]\<rparr>"
    by code_simp
  have 5: "validateRules jsonRuntime stillClock person [badRule, goodRule, conflictRule] None
             defaultOptions
       = Some [\<lparr>resultId = ''1'', resultType = None, message = None,
                resultConditions = Some (Items []), keyword = ''conditional'',
                errors = Some [\<lparr>cause = ''Failed to evaluate conditions in one context in rule [1].'',
                                errContext = ''Error occurred while processing rule [1]''\<rparr>]\<rparr>,
               \<lparr>resultId = ''2'', resultType = None, message = None,
                resultConditions = Some (PerContext
                  [\<lparr>result = True,
                    conditionValues = [\<lparr>instancePath = ''age'', instancePathValue = Some (JNum 22),
                                         detailOperator = ''='',
                                         detailComparisonValue = Some (JNum 22)\<rparr>]\<rparr>]),
                keyword = ''conditional'', errors = None\<rparr>,
               \<lparr>resultId = ''7'', resultType = None, message = None,
                resultConditions = Some (Items []), keyword = ''conditional'',
                errors = Some [\<lparr>cause = ''Failed to evaluate conditions in one context in rule [7].'',
                                errContext = ''Error occurred while processing rule [7]''\<rparr>]\<rparr>]"
    by code_simp
  from 1 have 6: "ruleEntries jsonRuntime stillNow person None 10000 200 False 0 ?r
       = Some [\<lparr>resultId = ''3'', resultType = None, message = None,
                resultConditions = Some (Items []), keyword = ''conditional'',
                errors = Some [\<lparr>cause = ''Failed to evaluate conditions in one context in rule [3].'',
                                errContext = ''Error occurred while processing rule [3]''\<rparr>]\<rparr>]"
    by (simp only: 2)
  from 3 have 7: "ruleEntries jsonRuntime stillNow emptyItems None 10000 200 True 0 ?e
       = Some [\<lparr>resultId = ''4'', resultType = None, message = None,
                resultConditions = Some (Items []), keyword = ''conditional'',
                errors = Some [\<lparr>cause = ''Failed to evaluate conditions in one context.'',
                                errContext = ''Error occurred while processing rule [4]''\<rparr>]\<rparr>]"
    by (simp only: 4)
  show ?thesis
    by (intro conjI p e a o n g 6 c x 7 5)
qed

subsection \<open>The arguments after the call\<close>

text \<open>
  Claim C8. \<^verbatim>\<open>validateRules\<close> does not change its arguments, and a second call with the
  same arguments under the same clock readings gives the same output. On a store that is
  allocated, where \<^verbatim>\<open>documentJson\<close> refers to a value, \<^verbatim>\<open>rules\<close> to an array of
  references to rules of the data model and \<^verbatim>\<open>contextObj\<close> is \<^verbatim>\<open>null\<close> or refers to
  a value, the call on the store does what \<open>validateRules\<close> does on the values read: it
  returns when that one returns, with the same results. When it returns, every object
  that the store held before the call is as it was, so that all that the call writes is
  in objects it allocated itself, the copies among them; and the call repeated on the
  store that the first call leaves, with the same references, options and clock, returns
  the same results. The call returns whenever no path of a rule contains a dollar sign.
\<close>

theorem validateRules_leaves_arguments:
  assumes "allocated s"
    and "valueAt s documentJson = Some doc"
    and "arrayAt s rules = Some refs"
    and "map (readRule s) refs = map Some ws"
    and "list_all isPlain ws"
    and "contextAtRef s contextObj = Some ctx"
  shows "(case validateRules rt clk doc (map rule.truncate ws) ctx opts of
            None \<Rightarrow> validateRulesOnStore rt clk s documentJson rules contextObj opts = None
          | Some results \<Rightarrow>
              (\<exists>s'. validateRulesOnStore rt clk s documentJson rules contextObj opts
                       = Some (results, s')
                    \<and> (\<forall>x<nextFree s. objects s' x = objects s x)
                    \<and> (\<exists>s''. validateRulesOnStore rt clk s' documentJson rules contextObj opts
                                 = Some (results, s''))))
         \<and> ((\<forall>w\<in>set ws. \<forall>c\<in>set (conditions w). dollarFree c)
              \<longrightarrow> (\<exists>results s'.
                     validateRulesOnStore rt clk s documentJson rules contextObj opts
                       = Some (results, s')
                     \<and> validateRules rt clk doc (map rule.truncate ws) ctx opts = Some results
                     \<and> (\<forall>x<nextFree s. objects s' x = objects s x)
                     \<and> (\<exists>s''. validateRulesOnStore rt clk s' documentJson rules contextObj opts
                                  = Some (results, s''))))"
proof -
  let ?v = "validateRules rt clk doc (map rule.truncate ws) ctx opts"
  note spec = validateRulesOnStore_spec [OF assms, of rt clk opts]
  have main: "\<exists>s'. validateRulesOnStore rt clk s documentJson rules contextObj opts
                       = Some (results, s')
                    \<and> (\<forall>x<nextFree s. objects s' x = objects s x)
                    \<and> (\<exists>s''. validateRulesOnStore rt clk s' documentJson rules contextObj opts
                                 = Some (results, s''))"
    if v: "?v = Some results" for results
  proof -
    from spec v obtain s' where
      first: "validateRulesOnStore rt clk s documentJson rules contextObj opts
                = Some (results, s')"
      and old: "\<forall>x<nextFree s. objects s' x = objects s x"
      and al': "allocated s'"
      by auto
    have below: "x < nextFree s" if "objects s x \<noteq> None" for x
      using assms(1) that by (rule allocated_bound)
    have keep: "objects s' x = objects s x" if "objects s x \<noteq> None" for x
      using old below [OF that] by simp
    have doc': "valueAt s' documentJson = Some doc"
    proof -
      from assms(2) have "objects s documentJson \<noteq> None"
        by (cases "objects s documentJson") (simp_all add: valueAt_def)
      from keep [OF this] assms(2) show ?thesis by (simp add: valueAt_def)
    qed
    have arr': "arrayAt s' rules = Some refs"
    proof -
      from assms(3) have "objects s rules \<noteq> None"
        by (cases "objects s rules") (simp_all add: arrayAt_def)
      from keep [OF this] assms(3) show ?thesis by (simp add: arrayAt_def)
    qed
    have ctx': "contextAtRef s' contextObj = Some ctx"
    proof (cases contextObj)
      case None
      with assms(6) show ?thesis by (simp add: contextAtRef_def)
    next
      case (Some c)
      with assms(6) have "objects s c \<noteq> None"
        by (cases "objects s c") (simp_all add: contextAtRef_def valueAt_def)
      from keep [OF this] assms(6) Some show ?thesis by (simp add: contextAtRef_def valueAt_def)
    qed
    have "readRule s' a = readRule s a" if "a \<in> set refs" for a
    proof -
      from that have "readRule s a \<in> set (map (readRule s) refs)" by simp
      with assms(4) have "readRule s a \<in> set (map Some ws)" by simp
      then obtain w where w: "readRule s a = Some w" by auto
      have "\<forall>x\<in>footprint s a. objects s' x = objects s x"
        using readRule_footprint [OF w] keep by blast
      from readRule_cong [OF this] show ?thesis by simp
    qed
    with assms(4) have reads': "map (readRule s') refs = map Some ws"
      by (simp cong: map_cong)
    from validateRulesOnStore_spec [OF al' doc' arr' reads' assms(5) ctx', of rt clk opts] v
    obtain s'' where
      "validateRulesOnStore rt clk s' documentJson rules contextObj opts = Some (results, s'')"
      by auto
    with first old show ?thesis by blast
  qed
  have 1: "case ?v of
            None \<Rightarrow> validateRulesOnStore rt clk s documentJson rules contextObj opts = None
          | Some results \<Rightarrow>
              (\<exists>s'. validateRulesOnStore rt clk s documentJson rules contextObj opts
                       = Some (results, s')
                    \<and> (\<forall>x<nextFree s. objects s' x = objects s x)
                    \<and> (\<exists>s''. validateRulesOnStore rt clk s' documentJson rules contextObj opts
                                 = Some (results, s'')))"
  proof (cases ?v)
    case None
    with spec show ?thesis by simp
  next
    case (Some results)
    from main [OF Some] Some show ?thesis by simp
  qed
  have 2: "\<exists>results s'.
                     validateRulesOnStore rt clk s documentJson rules contextObj opts
                       = Some (results, s')
                     \<and> ?v = Some results
                     \<and> (\<forall>x<nextFree s. objects s' x = objects s x)
                     \<and> (\<exists>s''. validateRulesOnStore rt clk s' documentJson rules contextObj opts
                                  = Some (results, s''))"
    if d: "\<forall>w\<in>set ws. \<forall>c\<in>set (conditions w). dollarFree c"
  proof -
    from d have "\<forall>r\<in>set (map rule.truncate ws). \<forall>c\<in>set (conditions r). dollarFree c"
      by (simp add: rule.defs)
    from validateRules_returns [OF this, of rt clk doc ctx opts]
    obtain results where v: "?v = Some results" by auto
    from main [OF v] v show ?thesis by blast
  qed
  from 1 2 show ?thesis by blast
qed

theorem validateRules_leaves_arguments_witness:
  "\<exists>results s'.
     validateRulesOnStore jsonRuntime stillClock callerStore 0 4 None defaultOptions
       = Some (results, s')
     \<and> validateRules jsonRuntime stillClock threeValues [mkRule ''r'' [countsAbove]]
         None defaultOptions = Some results
     \<and> objects s' 0 = objects callerStore 0 \<and> objects s' 1 = objects callerStore 1
     \<and> objects s' 2 = objects callerStore 2 \<and> objects s' 3 = objects callerStore 3
     \<and> objects s' 4 = objects callerStore 4
     \<and> (\<exists>s''. validateRulesOnStore jsonRuntime stillClock s' 0 4 None defaultOptions
                  = Some (results, s''))"
proof -
  have "allocated callerStore"
    by (simp add: allocated_def callerStore_def)
  moreover have "valueAt callerStore 0 = Some threeValues"
    by (simp add: valueAt_def callerStore_def)
  moreover have "arrayAt callerStore 4 = Some [3]"
    by (simp add: arrayAt_def callerStore_def)
  moreover have "map (readRule callerStore) [3] = map Some [callerRule\<lparr>conditions := [countsAbove]\<rparr>]"
    by (simp add: readRule_def arrayAt_def conditionAt_def callerStore_def)
  moreover have "list_all isPlain [callerRule\<lparr>conditions := [countsAbove]\<rparr>]"
    by (simp add: isPlain_def callerRule_def)
  moreover have "contextAtRef callerStore None = Some None"
    by (simp add: contextAtRef_def)
  ultimately have
    "(\<forall>w\<in>set [callerRule\<lparr>conditions := [countsAbove]\<rparr>]. \<forall>c\<in>set (conditions w). dollarFree c)
       \<longrightarrow> (\<exists>results s'.
              validateRulesOnStore jsonRuntime stillClock callerStore 0 4 None defaultOptions
                = Some (results, s')
              \<and> validateRules jsonRuntime stillClock threeValues
                  (map rule.truncate [callerRule\<lparr>conditions := [countsAbove]\<rparr>]) None
                  defaultOptions = Some results
              \<and> (\<forall>x<nextFree callerStore. objects s' x = objects callerStore x)
              \<and> (\<exists>s''. validateRulesOnStore jsonRuntime stillClock s' 0 4 None defaultOptions
                           = Some (results, s'')))"
    using validateRules_leaves_arguments
            [of callerStore 0 threeValues 4 "[3]" "[callerRule\<lparr>conditions := [countsAbove]\<rparr>]"
                None None jsonRuntime stillClock defaultOptions]
    by blast
  moreover have "\<forall>w\<in>set [callerRule\<lparr>conditions := [countsAbove]\<rparr>].
                   \<forall>c\<in>set (conditions w). dollarFree c"
    by (simp add: dollarFree_def countsAbove_def)
  ultimately obtain results s' where
    "validateRulesOnStore jsonRuntime stillClock callerStore 0 4 None defaultOptions
       = Some (results, s')"
    "validateRules jsonRuntime stillClock threeValues
       (map rule.truncate [callerRule\<lparr>conditions := [countsAbove]\<rparr>]) None defaultOptions
       = Some results"
    "\<forall>x<nextFree callerStore. objects s' x = objects callerStore x"
    "\<exists>s''. validateRulesOnStore jsonRuntime stillClock s' 0 4 None defaultOptions
                  = Some (results, s'')"
    by blast
  moreover have "nextFree callerStore = 5" by (simp add: callerStore_def)
  ultimately show ?thesis
    by (simp add: callerRule_truncate)
qed

subsection \<open>An absent left operand\<close>

text \<open>
  Claim C9. When the left operand of a condition resolves to \<^verbatim>\<open>undefined\<close> and the
  operator is neither \<^verbatim>\<open>exists\<close> nor \<^verbatim>\<open>does_not_exists\<close>, \<^verbatim>\<open>testCondition\<close> returns
  false and throws nothing, whatever the operator and the right operand are: the branch
  that throws is not reached.
\<close>

theorem testCondition_absent_left:
  "oper \<noteq> ''exists'' \<Longrightarrow> oper \<noteq> ''does_not_exists''
     \<Longrightarrow> testCondition rt None rightValue oper = Inr False"
  by (simp add: testCondition_def)

theorem testCondition_absent_left_witness:
  "''no_such_operator'' \<noteq> ''exists'' \<and> ''no_such_operator'' \<noteq> ''does_not_exists''
     \<and> testCondition jsonRuntime None (Some (JNum 1)) ''no_such_operator'' = Inr False"
  using testCondition_absent_left [of "''no_such_operator''" jsonRuntime "Some (JNum 1)"]
  by simp

subsection \<open>The first passing context\<close>

text \<open>
  Claim C10. The flag that \<^verbatim>\<open>validateRules\<close> hands to the evaluation of every rule is
  false exactly when \<^verbatim>\<open>options.returnAllContexts\<close> is false, and the result of the call
  is the concatenation of the entries that the rules get under that flag. When the option
  is false, every per-context list in the result of the call has at most one record. For
  a rule whose contexts are \<open>pre @ c # post\<close>, where the contexts of \<open>pre\<close> are evaluated
  without an error and do not pass and \<open>c\<close> passes with the record \<open>ev\<close>: under the flag
  false the entry of the rule carries the list \<open>[ev]\<close>, whatever the contexts of \<open>post\<close>
  are, so that they are not evaluated (a context among them whose evaluation would throw
  changes nothing). Under the flag true, when every context is evaluated without an
  error, the entry carries the records of the passing contexts in the order of the
  tuples. Both are stated for the entries of a rule and for the result of the call on a
  batch of one rule that passes the date filter. The call returns whenever no path of a
  rule contains a dollar sign.
\<close>

theorem returnAllContexts_results:
  "validateRules rt clk d rules contextObj opts
     = map_option concat
         (those (map (\<lambda>(k, r). ruleEntries rt (leafReading clk k) d contextObj
                                (case optContextLimit opts of Some l \<Rightarrow> l | None \<Rightarrow> 10000)
                                (case optTimeLimit opts of Some t \<Rightarrow> t | None \<Rightarrow> 200)
                                (optReturnAllContexts opts \<noteq> Some False)
                                (startReading clk) r)
                   (enumerate 0 (filterRulesByDate clk (map (copyRule rt) rules)))))
   \<and> (optReturnAllContexts opts = Some False
        \<and> validateRules rt clk d rules contextObj opts = Some results
        \<and> x \<in> set results \<and> resultConditions x = Some (PerContext evs)
        \<longrightarrow> length evs \<le> 1)
   \<and> (processConditionsForLoops (conditions r) [] = Some (conds, unsorted)
        \<and> explodeContexts rt now d (sortLoopsByPath rt unsorted) [] L st tlim
             \<lparr>count = 0, limitReached = False, timeReached = False\<rparr> = (pre @ c # post, cc)
        \<and> map (evaluateContext rt d (r\<lparr>conditions := conds\<rparr>) (sortLoopsByPath rt unsorted)
                  contextObj) pre = map Inr es
        \<and> list_all (\<lambda>e. \<not> result e) es
        \<and> evaluateContext rt d (r\<lparr>conditions := conds\<rparr>) (sortLoopsByPath rt unsorted)
             contextObj c = Inr ev
        \<and> result ev
        \<longrightarrow> ruleEntries rt now d contextObj L tlim False st r
             = Some (conditionalEntry r [ev] # limitEntries r cc L tlim))
   \<and> (processConditionsForLoops (conditions r) [] = Some (conds, unsorted)
        \<and> explodeContexts rt now d (sortLoopsByPath rt unsorted) [] L st tlim
             \<lparr>count = 0, limitReached = False, timeReached = False\<rparr> = (tuples, cc)
        \<and> map (evaluateContext rt d (r\<lparr>conditions := conds\<rparr>) (sortLoopsByPath rt unsorted)
                  contextObj) tuples = map Inr es
        \<and> filter result es \<noteq> []
        \<longrightarrow> ruleEntries rt now d contextObj L tlim True st r
             = Some (conditionalEntry r (filter result es) # limitEntries r cc L tlim))
   \<and> (optReturnAllContexts opts = Some False
        \<and> withinDates clk 0 (copyRule rt r0)
        \<and> processConditionsForLoops (conditions (copyRule rt r0)) [] = Some (conds, unsorted)
        \<and> explodeContexts rt (leafReading clk 0) d (sortLoopsByPath rt unsorted) []
             (case optContextLimit opts of Some l \<Rightarrow> l | None \<Rightarrow> 10000) (startReading clk)
             (case optTimeLimit opts of Some t \<Rightarrow> t | None \<Rightarrow> 200)
             \<lparr>count = 0, limitReached = False, timeReached = False\<rparr> = (pre @ c # post, cc)
        \<and> map (evaluateContext rt d ((copyRule rt r0)\<lparr>conditions := conds\<rparr>)
                  (sortLoopsByPath rt unsorted) contextObj) pre = map Inr es
        \<and> list_all (\<lambda>e. \<not> result e) es
        \<and> evaluateContext rt d ((copyRule rt r0)\<lparr>conditions := conds\<rparr>)
             (sortLoopsByPath rt unsorted) contextObj c = Inr ev
        \<and> result ev
        \<longrightarrow> validateRules rt clk d [r0] contextObj opts
             = Some (conditionalEntry (copyRule rt r0) [ev]
                     # limitEntries (copyRule rt r0) cc
                         (case optContextLimit opts of Some l \<Rightarrow> l | None \<Rightarrow> 10000)
                         (case optTimeLimit opts of Some t \<Rightarrow> t | None \<Rightarrow> 200)))
   \<and> (optReturnAllContexts opts \<noteq> Some False
        \<and> withinDates clk 0 (copyRule rt r0)
        \<and> processConditionsForLoops (conditions (copyRule rt r0)) [] = Some (conds, unsorted)
        \<and> explodeContexts rt (leafReading clk 0) d (sortLoopsByPath rt unsorted) []
             (case optContextLimit opts of Some l \<Rightarrow> l | None \<Rightarrow> 10000) (startReading clk)
             (case optTimeLimit opts of Some t \<Rightarrow> t | None \<Rightarrow> 200)
             \<lparr>count = 0, limitReached = False, timeReached = False\<rparr> = (tuples, cc)
        \<and> map (evaluateContext rt d ((copyRule rt r0)\<lparr>conditions := conds\<rparr>)
                  (sortLoopsByPath rt unsorted) contextObj) tuples = map Inr es
        \<and> filter result es \<noteq> []
        \<longrightarrow> validateRules rt clk d [r0] contextObj opts
             = Some (conditionalEntry (copyRule rt r0) (filter result es)
                     # limitEntries (copyRule rt r0) cc
                         (case optContextLimit opts of Some l \<Rightarrow> l | None \<Rightarrow> 10000)
                         (case optTimeLimit opts of Some t \<Rightarrow> t | None \<Rightarrow> 200)))
   \<and> ((\<forall>x\<in>set rules. \<forall>c\<in>set (conditions x). dollarFree c)
        \<longrightarrow> validateRules rt clk d rules contextObj opts \<noteq> None)"
proof (intro conjI impI)
  show "validateRules rt clk d rules contextObj opts
     = map_option concat
         (those (map (\<lambda>(k, r). ruleEntries rt (leafReading clk k) d contextObj
                                (case optContextLimit opts of Some l \<Rightarrow> l | None \<Rightarrow> 10000)
                                (case optTimeLimit opts of Some t \<Rightarrow> t | None \<Rightarrow> 200)
                                (optReturnAllContexts opts \<noteq> Some False)
                                (startReading clk) r)
                   (enumerate 0 (filterRulesByDate clk (map (copyRule rt) rules)))))"
    by (rule validateRules_flag)
next
  assume "optReturnAllContexts opts = Some False
        \<and> validateRules rt clk d rules contextObj opts = Some results
        \<and> x \<in> set results \<and> resultConditions x = Some (PerContext evs)"
  then show "length evs \<le> 1"
    using validateRules_at_most_one [of opts rt clk d rules contextObj results x evs] by blast
next
  assume h: "processConditionsForLoops (conditions r) [] = Some (conds, unsorted)
        \<and> explodeContexts rt now d (sortLoopsByPath rt unsorted) [] L st tlim
             \<lparr>count = 0, limitReached = False, timeReached = False\<rparr> = (pre @ c # post, cc)
        \<and> map (evaluateContext rt d (r\<lparr>conditions := conds\<rparr>) (sortLoopsByPath rt unsorted)
                  contextObj) pre = map Inr es
        \<and> list_all (\<lambda>e. \<not> result e) es
        \<and> evaluateContext rt d (r\<lparr>conditions := conds\<rparr>) (sortLoopsByPath rt unsorted)
             contextObj c = Inr ev
        \<and> result ev"
  show "ruleEntries rt now d contextObj L tlim False st r
             = Some (conditionalEntry r [ev] # limitEntries r cc L tlim)"
    by (rule ruleEntries_first
               [OF h [THEN conjunct1] h [THEN conjunct2, THEN conjunct1]
                   h [THEN conjunct2, THEN conjunct2, THEN conjunct1]
                   h [THEN conjunct2, THEN conjunct2, THEN conjunct2, THEN conjunct1]
                   h [THEN conjunct2, THEN conjunct2, THEN conjunct2, THEN conjunct2,
                      THEN conjunct1]
                   h [THEN conjunct2, THEN conjunct2, THEN conjunct2, THEN conjunct2,
                      THEN conjunct2]])
next
  assume h: "processConditionsForLoops (conditions r) [] = Some (conds, unsorted)
        \<and> explodeContexts rt now d (sortLoopsByPath rt unsorted) [] L st tlim
             \<lparr>count = 0, limitReached = False, timeReached = False\<rparr> = (tuples, cc)
        \<and> map (evaluateContext rt d (r\<lparr>conditions := conds\<rparr>) (sortLoopsByPath rt unsorted)
                  contextObj) tuples = map Inr es
        \<and> filter result es \<noteq> []"
  show "ruleEntries rt now d contextObj L tlim True st r
             = Some (conditionalEntry r (filter result es) # limitEntries r cc L tlim)"
    by (rule ruleEntries_all
               [OF h [THEN conjunct1] h [THEN conjunct2, THEN conjunct1]
                   h [THEN conjunct2, THEN conjunct2, THEN conjunct1]
                   h [THEN conjunct2, THEN conjunct2, THEN conjunct2]])
next
  assume h: "optReturnAllContexts opts = Some False
        \<and> withinDates clk 0 (copyRule rt r0)
        \<and> processConditionsForLoops (conditions (copyRule rt r0)) [] = Some (conds, unsorted)
        \<and> explodeContexts rt (leafReading clk 0) d (sortLoopsByPath rt unsorted) []
             (case optContextLimit opts of Some l \<Rightarrow> l | None \<Rightarrow> 10000) (startReading clk)
             (case optTimeLimit opts of Some t \<Rightarrow> t | None \<Rightarrow> 200)
             \<lparr>count = 0, limitReached = False, timeReached = False\<rparr> = (pre @ c # post, cc)
        \<and> map (evaluateContext rt d ((copyRule rt r0)\<lparr>conditions := conds\<rparr>)
                  (sortLoopsByPath rt unsorted) contextObj) pre = map Inr es
        \<and> list_all (\<lambda>e. \<not> result e) es
        \<and> evaluateContext rt d ((copyRule rt r0)\<lparr>conditions := conds\<rparr>)
             (sortLoopsByPath rt unsorted) contextObj c = Inr ev
        \<and> result ev"
  note k = h [THEN conjunct2, THEN conjunct2]
  from h have f: "(optReturnAllContexts opts \<noteq> Some False) = False" by simp
  show "validateRules rt clk d [r0] contextObj opts
             = Some (conditionalEntry (copyRule rt r0) [ev]
                     # limitEntries (copyRule rt r0) cc
                         (case optContextLimit opts of Some l \<Rightarrow> l | None \<Rightarrow> 10000)
                         (case optTimeLimit opts of Some t \<Rightarrow> t | None \<Rightarrow> 200))"
    unfolding validateRules_single [OF h [THEN conjunct2, THEN conjunct1]] f
    by (rule ruleEntries_first
               [OF k [THEN conjunct1] k [THEN conjunct2, THEN conjunct1]
                   k [THEN conjunct2, THEN conjunct2, THEN conjunct1]
                   k [THEN conjunct2, THEN conjunct2, THEN conjunct2, THEN conjunct1]
                   k [THEN conjunct2, THEN conjunct2, THEN conjunct2, THEN conjunct2,
                      THEN conjunct1]
                   k [THEN conjunct2, THEN conjunct2, THEN conjunct2, THEN conjunct2,
                      THEN conjunct2]])
next
  assume h: "optReturnAllContexts opts \<noteq> Some False
        \<and> withinDates clk 0 (copyRule rt r0)
        \<and> processConditionsForLoops (conditions (copyRule rt r0)) [] = Some (conds, unsorted)
        \<and> explodeContexts rt (leafReading clk 0) d (sortLoopsByPath rt unsorted) []
             (case optContextLimit opts of Some l \<Rightarrow> l | None \<Rightarrow> 10000) (startReading clk)
             (case optTimeLimit opts of Some t \<Rightarrow> t | None \<Rightarrow> 200)
             \<lparr>count = 0, limitReached = False, timeReached = False\<rparr> = (tuples, cc)
        \<and> map (evaluateContext rt d ((copyRule rt r0)\<lparr>conditions := conds\<rparr>)
                  (sortLoopsByPath rt unsorted) contextObj) tuples = map Inr es
        \<and> filter result es \<noteq> []"
  note k = h [THEN conjunct2, THEN conjunct2]
  from h have f: "(optReturnAllContexts opts \<noteq> Some False) = True" by simp
  show "validateRules rt clk d [r0] contextObj opts
             = Some (conditionalEntry (copyRule rt r0) (filter result es)
                     # limitEntries (copyRule rt r0) cc
                         (case optContextLimit opts of Some l \<Rightarrow> l | None \<Rightarrow> 10000)
                         (case optTimeLimit opts of Some t \<Rightarrow> t | None \<Rightarrow> 200))"
    unfolding validateRules_single [OF h [THEN conjunct2, THEN conjunct1]] f
    by (rule ruleEntries_all
               [OF k [THEN conjunct1] k [THEN conjunct2, THEN conjunct1]
                   k [THEN conjunct2, THEN conjunct2, THEN conjunct1]
                   k [THEN conjunct2, THEN conjunct2, THEN conjunct2]])
next
  assume "\<forall>x\<in>set rules. \<forall>c\<in>set (conditions x). dollarFree c"
  then show "validateRules rt clk d rules contextObj opts \<noteq> None"
    by (rule validateRules_returns)
qed

theorem returnAllContexts_results_witness:
  "optReturnAllContexts firstOnly = Some False
   \<and> withinDates stillClock 0 (copyRule jsonRuntime containsOne)
   \<and> processConditionsForLoops (conditions (copyRule jsonRuntime containsOne)) []
       = Some ([\<lparr>ref = ''c[@0].d'', operator = ''contains'',
                 comparisonValue = Some (JStr ''1''), comparisonRef = None\<rparr>],
               [\<lparr>objectName = ''c'', completeObjectPath = ''c'', parm = Some ''@0''\<rparr>])
   \<and> explodeContexts jsonRuntime (leafReading stillClock 0) mixedValues
        (sortLoopsByPath jsonRuntime
           [\<lparr>objectName = ''c'', completeObjectPath = ''c'', parm = Some ''@0''\<rparr>])
        [] 10000 0 200 \<lparr>count = 0, limitReached = False, timeReached = False\<rparr>
       = ([[0], [1]], \<lparr>count = 2, limitReached = False, timeReached = False\<rparr>)
   \<and> evaluateContext jsonRuntime mixedValues
        ((copyRule jsonRuntime containsOne)
           \<lparr>conditions := [\<lparr>ref = ''c[@0].d'', operator = ''contains'',
                             comparisonValue = Some (JStr ''1''), comparisonRef = None\<rparr>]\<rparr>)
        (sortLoopsByPath jsonRuntime
           [\<lparr>objectName = ''c'', completeObjectPath = ''c'', parm = Some ''@0''\<rparr>])
        None [0]
       = Inr \<lparr>result = True,
              conditionValues = [\<lparr>instancePath = ''c.0.d'',
                                   instancePathValue = Some (JStr ''a1''),
                                   detailOperator = ''contains'',
                                   detailComparisonValue = Some (JStr ''1'')\<rparr>]\<rparr>
   \<and> isl (evaluateContext jsonRuntime mixedValues
             ((copyRule jsonRuntime containsOne)
                \<lparr>conditions := [\<lparr>ref = ''c[@0].d'', operator = ''contains'',
                                  comparisonValue = Some (JStr ''1''), comparisonRef = None\<rparr>]\<rparr>)
             (sortLoopsByPath jsonRuntime
                [\<lparr>objectName = ''c'', completeObjectPath = ''c'', parm = Some ''@0''\<rparr>])
             None [1])
   \<and> validateRules jsonRuntime stillClock mixedValues [containsOne] None firstOnly
       = Some [\<lparr>resultId = ''m'', resultType = None, message = None,
                resultConditions = Some (PerContext
                  [\<lparr>result = True,
                    conditionValues = [\<lparr>instancePath = ''c.0.d'',
                                         instancePathValue = Some (JStr ''a1''),
                                         detailOperator = ''contains'',
                                         detailComparisonValue = Some (JStr ''1'')\<rparr>]\<rparr>]),
                keyword = ''conditional'', errors = None\<rparr>]
   \<and> validateRules jsonRuntime stillClock mixedValues [containsOne] None defaultOptions
       = Some [\<lparr>resultId = ''m'', resultType = None, message = None,
                resultConditions = Some (Items []), keyword = ''conditional'',
                errors = Some [\<lparr>cause = ''Failed to evaluate conditions in one context in rule [m].'',
                                errContext = ''Error occurred while processing rule [m]''\<rparr>]\<rparr>]
   \<and> validateRules jsonRuntime stillClock threeValues [aboveThree] None firstOnly
       = Some [\<lparr>resultId = ''r'', resultType = None, message = None,
                resultConditions = Some (PerContext
                  [\<lparr>result = True,
                    conditionValues = [\<lparr>instancePath = ''c.1.d'',
                                         instancePathValue = Some (JNum 5),
                                         detailOperator = ''>'',
                                         detailComparisonValue = Some (JNum 3)\<rparr>]\<rparr>]),
                keyword = ''conditional'', errors = None\<rparr>]
   \<and> validateRules jsonRuntime stillClock threeValues [aboveThree] None defaultOptions
       = Some [\<lparr>resultId = ''r'', resultType = None, message = None,
                resultConditions = Some (PerContext
                  [\<lparr>result = True,
                    conditionValues = [\<lparr>instancePath = ''c.1.d'',
                                         instancePathValue = Some (JNum 5),
                                         detailOperator = ''>'',
                                         detailComparisonValue = Some (JNum 3)\<rparr>]\<rparr>,
                   \<lparr>result = True,
                    conditionValues = [\<lparr>instancePath = ''c.2.d'',
                                         instancePathValue = Some (JNum 7),
                                         detailOperator = ''>'',
                                         detailComparisonValue = Some (JNum 3)\<rparr>]\<rparr>]),
                keyword = ''conditional'', errors = None\<rparr>]"
proof -
  let ?m = "copyRule jsonRuntime containsOne"
  let ?r = "copyRule jsonRuntime aboveThree"
  let ?loops = "[\<lparr>objectName = ''c'', completeObjectPath = ''c'', parm = Some ''@0''\<rparr>]"
  let ?mc = "[\<lparr>ref = ''c[@0].d'', operator = ''contains'',
                comparisonValue = Some (JStr ''1''), comparisonRef = (None :: string option)\<rparr>]"
  let ?rc = "[\<lparr>ref = ''c[@0].d'', operator = ''>'',
                comparisonValue = Some (JNum 3), comparisonRef = (None :: string option)\<rparr>]"
  let ?fresh = "\<lparr>count = 0, limitReached = False, timeReached = False\<rparr>"
  let ?two = "\<lparr>count = 2, limitReached = False, timeReached = False\<rparr>"
  let ?three = "\<lparr>count = 3, limitReached = False, timeReached = False\<rparr>"
  let ?ev0 = "\<lparr>result = True,
               conditionValues = [\<lparr>instancePath = ''c.0.d'',
                                    instancePathValue = Some (JStr ''a1''),
                                    detailOperator = ''contains'',
                                    detailComparisonValue = Some (JStr ''1'')\<rparr>]\<rparr>"
  let ?ev1 = "\<lparr>result = True,
               conditionValues = [\<lparr>instancePath = ''c.1.d'',
                                    instancePathValue = Some (JNum 5),
                                    detailOperator = ''>'',
                                    detailComparisonValue = Some (JNum 3)\<rparr>]\<rparr>"
  let ?ev2 = "\<lparr>result = True,
               conditionValues = [\<lparr>instancePath = ''c.2.d'',
                                    instancePathValue = Some (JNum 7),
                                    detailOperator = ''>'',
                                    detailComparisonValue = Some (JNum 3)\<rparr>]\<rparr>"
  let ?no = "\<lparr>result = False, conditionValues = ([] :: json detail list)\<rparr>"
  have o: "optReturnAllContexts firstOnly = Some False" by code_simp
  have w: "withinDates stillClock 0 ?m" by code_simp
  have p: "processConditionsForLoops (conditions ?m) [] = Some (?mc, ?loops)" by code_simp
  have e: "explodeContexts jsonRuntime (leafReading stillClock 0) mixedValues
             (sortLoopsByPath jsonRuntime ?loops) [] 10000 0 200 ?fresh = ([[0], [1]], ?two)"
    by code_simp
  have a: "evaluateContext jsonRuntime mixedValues (?m\<lparr>conditions := ?mc\<rparr>)
             (sortLoopsByPath jsonRuntime ?loops) None [0] = Inr ?ev0"
    by code_simp
  have b: "isl (evaluateContext jsonRuntime mixedValues (?m\<lparr>conditions := ?mc\<rparr>)
                  (sortLoopsByPath jsonRuntime ?loops) None [1])"
    by code_simp
  have h1: "optReturnAllContexts firstOnly = Some False
        \<and> withinDates stillClock 0 ?m
        \<and> processConditionsForLoops (conditions ?m) [] = Some (?mc, ?loops)
        \<and> explodeContexts jsonRuntime (leafReading stillClock 0) mixedValues
             (sortLoopsByPath jsonRuntime ?loops) []
             (case optContextLimit firstOnly of Some l \<Rightarrow> l | None \<Rightarrow> 10000)
             (startReading stillClock)
             (case optTimeLimit firstOnly of Some t \<Rightarrow> t | None \<Rightarrow> 200) ?fresh
            = ([] @ [0] # [[1]], ?two)
        \<and> map (evaluateContext jsonRuntime mixedValues (?m\<lparr>conditions := ?mc\<rparr>)
                  (sortLoopsByPath jsonRuntime ?loops) None) [] = map Inr []
        \<and> list_all (\<lambda>e. \<not> result e) []
        \<and> evaluateContext jsonRuntime mixedValues (?m\<lparr>conditions := ?mc\<rparr>)
             (sortLoopsByPath jsonRuntime ?loops) None [0] = Inr ?ev0
        \<and> result ?ev0"
    by code_simp
  have 1: "validateRules jsonRuntime stillClock mixedValues [containsOne] None firstOnly
             = Some (conditionalEntry ?m [?ev0]
                     # limitEntries ?m ?two
                         (case optContextLimit firstOnly of Some l \<Rightarrow> l | None \<Rightarrow> 10000)
                         (case optTimeLimit firstOnly of Some t \<Rightarrow> t | None \<Rightarrow> 200))"
    using returnAllContexts_results
            [where rt = jsonRuntime and clk = stillClock and d = mixedValues
               and contextObj = None and opts = firstOnly and ?r0.0 = containsOne
               and conds = ?mc and unsorted = ?loops and pre = "[]" and c = "[0]"
               and post = "[[1]]" and cc = ?two and es = "[]" and ev = ?ev0,
             THEN conjunct2, THEN conjunct2, THEN conjunct2, THEN conjunct2, THEN conjunct1]
          h1
    by (rule mp)
  have e1: "conditionalEntry ?m [?ev0]
              # limitEntries ?m ?two
                  (case optContextLimit firstOnly of Some l \<Rightarrow> l | None \<Rightarrow> 10000)
                  (case optTimeLimit firstOnly of Some t \<Rightarrow> t | None \<Rightarrow> 200)
            = [\<lparr>resultId = ''m'', resultType = None, message = None,
                resultConditions = Some (PerContext [?ev0]),
                keyword = ''conditional'', errors = None\<rparr>]"
    by code_simp
  have 2: "validateRules jsonRuntime stillClock mixedValues [containsOne] None defaultOptions
       = Some [\<lparr>resultId = ''m'', resultType = None, message = None,
                resultConditions = Some (Items []), keyword = ''conditional'',
                errors = Some [\<lparr>cause = ''Failed to evaluate conditions in one context in rule [m].'',
                                errContext = ''Error occurred while processing rule [m]''\<rparr>]\<rparr>]"
    by code_simp
  have h3: "optReturnAllContexts firstOnly = Some False
        \<and> withinDates stillClock 0 ?r
        \<and> processConditionsForLoops (conditions ?r) [] = Some (?rc, ?loops)
        \<and> explodeContexts jsonRuntime (leafReading stillClock 0) threeValues
             (sortLoopsByPath jsonRuntime ?loops) []
             (case optContextLimit firstOnly of Some l \<Rightarrow> l | None \<Rightarrow> 10000)
             (startReading stillClock)
             (case optTimeLimit firstOnly of Some t \<Rightarrow> t | None \<Rightarrow> 200) ?fresh
            = ([[0]] @ [1] # [[2]], ?three)
        \<and> map (evaluateContext jsonRuntime threeValues (?r\<lparr>conditions := ?rc\<rparr>)
                  (sortLoopsByPath jsonRuntime ?loops) None) [[0]] = map Inr [?no]
        \<and> list_all (\<lambda>e. \<not> result e) [?no]
        \<and> evaluateContext jsonRuntime threeValues (?r\<lparr>conditions := ?rc\<rparr>)
             (sortLoopsByPath jsonRuntime ?loops) None [1] = Inr ?ev1
        \<and> result ?ev1"
    by code_simp
  have 3: "validateRules jsonRuntime stillClock threeValues [aboveThree] None firstOnly
             = Some (conditionalEntry ?r [?ev1]
                     # limitEntries ?r ?three
                         (case optContextLimit firstOnly of Some l \<Rightarrow> l | None \<Rightarrow> 10000)
                         (case optTimeLimit firstOnly of Some t \<Rightarrow> t | None \<Rightarrow> 200))"
    using returnAllContexts_results
            [where rt = jsonRuntime and clk = stillClock and d = threeValues
               and contextObj = None and opts = firstOnly and ?r0.0 = aboveThree
               and conds = ?rc and unsorted = ?loops and pre = "[[0]]" and c = "[1]"
               and post = "[[2]]" and cc = ?three and es = "[?no]" and ev = ?ev1,
             THEN conjunct2, THEN conjunct2, THEN conjunct2, THEN conjunct2, THEN conjunct1]
          h3
    by (rule mp)
  have e3: "conditionalEntry ?r [?ev1]
              # limitEntries ?r ?three
                  (case optContextLimit firstOnly of Some l \<Rightarrow> l | None \<Rightarrow> 10000)
                  (case optTimeLimit firstOnly of Some t \<Rightarrow> t | None \<Rightarrow> 200)
            = [\<lparr>resultId = ''r'', resultType = None, message = None,
                resultConditions = Some (PerContext [?ev1]),
                keyword = ''conditional'', errors = None\<rparr>]"
    by code_simp
  have h4: "optReturnAllContexts defaultOptions \<noteq> Some False
        \<and> withinDates stillClock 0 ?r
        \<and> processConditionsForLoops (conditions ?r) [] = Some (?rc, ?loops)
        \<and> explodeContexts jsonRuntime (leafReading stillClock 0) threeValues
             (sortLoopsByPath jsonRuntime ?loops) []
             (case optContextLimit defaultOptions of Some l \<Rightarrow> l | None \<Rightarrow> 10000)
             (startReading stillClock)
             (case optTimeLimit defaultOptions of Some t \<Rightarrow> t | None \<Rightarrow> 200) ?fresh
            = ([[0], [1], [2]], ?three)
        \<and> map (evaluateContext jsonRuntime threeValues (?r\<lparr>conditions := ?rc\<rparr>)
                  (sortLoopsByPath jsonRuntime ?loops) None) [[0], [1], [2]]
            = map Inr [?no, ?ev1, ?ev2]
        \<and> filter result [?no, ?ev1, ?ev2] \<noteq> []"
    by code_simp
  have 4: "validateRules jsonRuntime stillClock threeValues [aboveThree] None defaultOptions
             = Some (conditionalEntry ?r (filter result [?no, ?ev1, ?ev2])
                     # limitEntries ?r ?three
                         (case optContextLimit defaultOptions of Some l \<Rightarrow> l | None \<Rightarrow> 10000)
                         (case optTimeLimit defaultOptions of Some t \<Rightarrow> t | None \<Rightarrow> 200))"
    using returnAllContexts_results
            [where rt = jsonRuntime and clk = stillClock and d = threeValues
               and contextObj = None and opts = defaultOptions and ?r0.0 = aboveThree
               and conds = ?rc and unsorted = ?loops and tuples = "[[0], [1], [2]]"
               and cc = ?three and es = "[?no, ?ev1, ?ev2]",
             THEN conjunct2, THEN conjunct2, THEN conjunct2, THEN conjunct2, THEN conjunct2,
             THEN conjunct1]
          h4
    by (rule mp)
  have e4: "conditionalEntry ?r (filter result [?no, ?ev1, ?ev2])
              # limitEntries ?r ?three
                  (case optContextLimit defaultOptions of Some l \<Rightarrow> l | None \<Rightarrow> 10000)
                  (case optTimeLimit defaultOptions of Some t \<Rightarrow> t | None \<Rightarrow> 200)
            = [\<lparr>resultId = ''r'', resultType = None, message = None,
                resultConditions = Some (PerContext [?ev1, ?ev2]),
                keyword = ''conditional'', errors = None\<rparr>]"
    by code_simp
  from 1 have 5: "validateRules jsonRuntime stillClock mixedValues [containsOne] None firstOnly
       = Some [\<lparr>resultId = ''m'', resultType = None, message = None,
                resultConditions = Some (PerContext [?ev0]),
                keyword = ''conditional'', errors = None\<rparr>]"
    by (simp only: e1)
  from 3 have 6: "validateRules jsonRuntime stillClock threeValues [aboveThree] None firstOnly
       = Some [\<lparr>resultId = ''r'', resultType = None, message = None,
                resultConditions = Some (PerContext [?ev1]),
                keyword = ''conditional'', errors = None\<rparr>]"
    by (simp only: e3)
  from 4 have 7: "validateRules jsonRuntime stillClock threeValues [aboveThree] None defaultOptions
       = Some [\<lparr>resultId = ''r'', resultType = None, message = None,
                resultConditions = Some (PerContext [?ev1, ?ev2]),
                keyword = ''conditional'', errors = None\<rparr>]"
    by (simp only: e4)
  show ?thesis
    by (intro conjI o w p e a b 5 2 6 7)
qed

end
